theory Spec2Isabelle
  imports Main "HOL-Library.Monad_Syntax"
begin

chapter \<open>The growable string buffer of \<^verbatim>\<open>str.h\<close>\<close>

section \<open>Bytes, sizes and the C library\<close>

text \<open>
  A byte is a \<^typ>\<open>char\<close>; the terminator is the zero byte. A block of memory is the list
  of its bytes, and a pointer into a block is an offset into that list. A
  \<^verbatim>\<open>const char*\<close> argument is the list of the bytes it points to; the memory behind it
  ends with a zero byte that the list leaves out, so the argument \<^verbatim>\<open>"ab"\<close> is
  \<open>''ab''\<close> and stands for the memory \<open>''ab'' @ [NUL]\<close>.
\<close>

abbreviation NUL :: char where
  "NUL \<equiv> CHR 0x00"

text \<open>\<^verbatim>\<open>size_t\<close> is 64 bits wide: sums, differences and products wrap around.\<close>

definition sz_add :: "nat \<Rightarrow> nat \<Rightarrow> nat" where
  "sz_add a b = (a + b) mod 2 ^ 64"

definition sz_sub :: "nat \<Rightarrow> nat \<Rightarrow> nat" where
  "sz_sub a b = (a mod 2 ^ 64 + 2 ^ 64 - b mod 2 ^ 64) mod 2 ^ 64"

definition sz_mul :: "nat \<Rightarrow> nat \<Rightarrow> nat" where
  "sz_mul a b = (a * b) mod 2 ^ 64"

text \<open>The conversion of an offset to \<^verbatim>\<open>int\<close> (32 bits, two's complement).\<close>

definition to_int :: "nat \<Rightarrow> int" where
  "to_int n = (int n + 2 ^ 31) mod 2 ^ 32 - 2 ^ 31"

text \<open>The character classes of \<^verbatim>\<open><ctype.h>\<close> in the "C" locale.\<close>

definition isupper :: "char \<Rightarrow> bool" where
  "isupper c = (65 \<le> (of_char c :: nat) \<and> (of_char c :: nat) \<le> 90)"

definition islower :: "char \<Rightarrow> bool" where
  "islower c = (97 \<le> (of_char c :: nat) \<and> (of_char c :: nat) \<le> 122)"

definition isspace :: "char \<Rightarrow> bool" where
  "isspace c = ((of_char c :: nat) = 32 \<or> (9 \<le> (of_char c :: nat) \<and> (of_char c :: nat) \<le> 13))"

definition tolower :: "char \<Rightarrow> char" where
  "tolower c = (if isupper c then char_of ((of_char c :: nat) + 32) else c)"

definition toupper :: "char \<Rightarrow> char" where
  "toupper c = (if islower c then char_of ((of_char c :: nat) - 32) else c)"

text \<open>
  The functions of \<^verbatim>\<open><string.h>\<close>. \<open>c_str mem\<close> is the C string that starts at the
  beginning of \<open>mem\<close>: the bytes before the first zero byte.
\<close>

definition c_str :: "char list \<Rightarrow> string" where
  "c_str mem = takeWhile (\<lambda>c. c \<noteq> NUL) mem"

definition strlen :: "char list \<Rightarrow> nat" where
  "strlen mem = length (c_str mem)"

text \<open>\<open>memcpy mem off bytes\<close> stores \<open>bytes\<close> into the block \<open>mem\<close> from offset \<open>off\<close> on.\<close>

definition memcpy :: "char list \<Rightarrow> nat \<Rightarrow> char list \<Rightarrow> char list" where
  "memcpy mem off bytes = take off mem @ bytes @ drop (off + length bytes) mem"

text \<open>\<open>memmove mem d s n\<close> moves the \<open>n\<close> bytes at offset \<open>s\<close> of the block to offset \<open>d\<close>
  of the same block; the source is read before anything is written.\<close>

definition memmove :: "char list \<Rightarrow> nat \<Rightarrow> nat \<Rightarrow> nat \<Rightarrow> char list" where
  "memmove mem d s n = memcpy mem d (take n (drop s mem))"

definition memset :: "char list \<Rightarrow> nat \<Rightarrow> char \<Rightarrow> nat \<Rightarrow> char list" where
  "memset mem off c n = memcpy mem off (replicate n c)"

text \<open>Comparisons return the difference of the first two bytes that differ; a list that
  ends is followed by its terminator.\<close>

fun strcmp :: "char list \<Rightarrow> char list \<Rightarrow> int" where
  "strcmp (x # xs) (y # ys) =
     (if x \<noteq> y then int (of_char x) - int (of_char y)
      else if x = NUL then 0 else strcmp xs ys)"
| "strcmp [] (y # ys) = - int (of_char y)"
| "strcmp (x # xs) [] = int (of_char x)"
| "strcmp [] [] = 0"

fun strncmp :: "char list \<Rightarrow> char list \<Rightarrow> nat \<Rightarrow> int" where
  "strncmp a b 0 = 0"
| "strncmp a b (Suc n) =
     (let x = (case a of [] \<Rightarrow> NUL | c # _ \<Rightarrow> c);
          y = (case b of [] \<Rightarrow> NUL | c # _ \<Rightarrow> c)
      in if x \<noteq> y then int (of_char x) - int (of_char y)
         else if x = NUL then 0 else strncmp (tl a) (tl b) n)"

fun memcmp :: "char list \<Rightarrow> char list \<Rightarrow> nat \<Rightarrow> int" where
  "memcmp a b 0 = 0"
| "memcmp a b (Suc n) =
     (let x = (case a of [] \<Rightarrow> NUL | c # _ \<Rightarrow> c);
          y = (case b of [] \<Rightarrow> NUL | c # _ \<Rightarrow> c)
      in if x \<noteq> y then int (of_char x) - int (of_char y)
         else memcmp (tl a) (tl b) n)"

text \<open>\<open>find_first needle hay\<close> is the offset of the first place in \<open>hay\<close> where \<open>needle\<close>
  starts; \<open>strstr\<close> searches the C string at the start of a block.\<close>

fun find_first :: "string \<Rightarrow> string \<Rightarrow> nat option" where
  "find_first needle [] = (if needle = [] then Some 0 else None)"
| "find_first needle (h # t) =
     (if take (length needle) (h # t) = needle then Some 0
      else map_option Suc (find_first needle t))"

definition strstr :: "char list \<Rightarrow> string \<Rightarrow> nat option" where
  "strstr hay needle = find_first (c_str needle) (c_str hay)"

section \<open>The buffer\<close>

text \<open>
  \<^verbatim>\<open>typedef struct { size_t length; size_t capacity; char data[]; } str;\<close>
  The flexible array member \<open>data\<close> is the list of the bytes allocated behind the header.
  A \<^verbatim>\<open>str*\<close> is a \<open>str option\<close>, \<open>None\<close> for \<^verbatim>\<open>NULL\<close>.
\<close>

record str =
  length_s :: nat
  capacity_s :: nat
  data_s :: "char list"

definition STR_MIN_CAPACITY :: nat where
  "STR_MIN_CAPACITY = 16"

definition STR_NPOS :: int where
  "STR_NPOS = - 1"

subsection \<open>Allocation\<close>

text \<open>
  The allocator is part of the environment. Its answer to one request is an \<open>alloc\<close>:
  \<open>None\<close> when the request fails (\<^verbatim>\<open>malloc\<close> or \<^verbatim>\<open>realloc\<close> returns
  \<^verbatim>\<open>NULL\<close>), and \<open>Some junk\<close> when it succeeds, where \<open>junk i\<close> is the indeterminate
  byte that the fresh memory holds at offset \<open>i\<close>. The header of a buffer is kept in the
  record, so a request for \<^verbatim>\<open>sizeof(str) + n\<close> bytes yields a data block of \<open>n\<close> bytes.
  \<^verbatim>\<open>realloc\<close> keeps the old bytes.
\<close>

type_synonym alloc = "(nat \<Rightarrow> char) option"

definition malloc :: "alloc \<Rightarrow> nat \<Rightarrow> char list option" where
  "malloc a n = map_option (\<lambda>junk. map junk [0..<n]) a"

definition realloc :: "alloc \<Rightarrow> char list \<Rightarrow> nat \<Rightarrow> char list option" where
  "realloc a mem n = map_option (\<lambda>junk. take n mem @ map junk [length mem..<n]) a"

subsection \<open>Creation\<close>

text \<open>
  A function whose loops may run forever returns an \<open>option\<close>: \<open>None\<close> says that the call
  never returns. The loop of \<open>str_round_capacity\<close> doubles \<open>result\<close> in \<^verbatim>\<open>size_t\<close>.
\<close>

partial_function (option) str_round_capacity_loop :: "nat \<Rightarrow> nat \<Rightarrow> nat option" where
  "str_round_capacity_loop result capacity =
     (if result < capacity then str_round_capacity_loop (sz_mul result 2) capacity
      else Some result)"

definition str_round_capacity :: "nat \<Rightarrow> nat option" where
  "str_round_capacity capacity = str_round_capacity_loop STR_MIN_CAPACITY capacity"

definition str_new :: "alloc \<Rightarrow> nat \<Rightarrow> str option option" where
  "str_new a capacity = do {
     capacity \<leftarrow> str_round_capacity (max capacity 1);
     Some (case malloc a capacity of
             None \<Rightarrow> None
           | Some mem \<Rightarrow>
               Some \<lparr>length_s = 0, capacity_s = capacity, data_s = mem[0 := NUL]\<rparr>)
   }"

definition str_from :: "alloc \<Rightarrow> string option \<Rightarrow> str option option" where
  "str_from a cstr =
     (case cstr of
        None \<Rightarrow> Some None
      | Some cstr \<Rightarrow> do {
          let len = strlen cstr;
          s \<leftarrow> str_new a (sz_add len 1);
          Some (case s of
                  None \<Rightarrow> None
                | Some s \<Rightarrow>
                    Some (s\<lparr>data_s := memcpy (data_s s) 0 (take (len + 1) (cstr @ [NUL])),
                            length_s := len\<rparr>))
        })"

text \<open>
  Formatting is done by \<^verbatim>\<open>vsnprintf\<close> of the C library. What one pass over the template
  and its arguments does is given by the environment: \<open>Expands out\<close> when the pass produces
  the text \<open>out\<close>, \<open>Fails out\<close> when an output error stops it after the bytes \<open>out\<close>.
  \<open>vsnprintf mem off n f\<close> is the call with a destination of \<open>n\<close> bytes at offset \<open>off\<close>:
  a complete pass stores at most \<open>n - 1\<close> bytes and a terminator and returns the length
  of the whole text; a failing pass returns a negative value and leaves the bytes it had
  stored. With \<open>n = 0\<close> nothing is stored (the dry run).
\<close>

datatype fmt = Expands string | Fails string

definition vsnprintf :: "char list \<Rightarrow> nat \<Rightarrow> nat \<Rightarrow> fmt \<Rightarrow> int \<times> char list" where
  "vsnprintf mem off n f =
     (case f of
        Expands out \<Rightarrow>
          (int (length out), if n = 0 then mem else memcpy mem off (take (n - 1) out @ [NUL]))
      | Fails out \<Rightarrow>
          (- 1, if n = 0 then mem else memcpy mem off (take (n - 1) out)))"

text \<open>The number of bytes of the text that a pass really stored into a destination of
  \<open>n\<close> bytes, the terminator not counted.\<close>

definition bytes_written :: "nat \<Rightarrow> fmt \<Rightarrow> nat" where
  "bytes_written n f = (case f of Expands out \<Rightarrow> length (take (n - 1) out)
                                | Fails out \<Rightarrow> length (take (n - 1) out))"

definition str_format :: "alloc \<Rightarrow> fmt \<Rightarrow> fmt \<Rightarrow> str option option" where
  "str_format a dry pass =
     (let size_n = fst (vsnprintf [] 0 0 dry) in
      if size_n < 0 then Some None
      else do {
        str \<leftarrow> str_new a (nat (size_n + 1));
        Some (case str of
                None \<Rightarrow> None
              | Some str \<Rightarrow>
                  (let (written, mem) = vsnprintf (data_s str) 0 (capacity_s str) pass in
                   if written < 0 \<or> written \<ge> int (capacity_s str)
                   then Some (str\<lparr>length_s := sz_sub (capacity_s str) 1,
                                   data_s := mem[sz_sub (capacity_s str) 1 := NUL]\<rparr>)
                   else Some (str\<lparr>length_s := nat written, data_s := mem\<rparr>)))
      })"

subsection \<open>Information\<close>

definition str_len :: "str option \<Rightarrow> nat" where
  "str_len s = (case s of Some s \<Rightarrow> length_s s | None \<Rightarrow> 0)"

definition str_capacity :: "str option \<Rightarrow> nat" where
  "str_capacity s = (case s of Some s \<Rightarrow> capacity_s s | None \<Rightarrow> 0)"

definition str_empty :: "str option \<Rightarrow> bool" where
  "str_empty s = (case s of None \<Rightarrow> True | Some s \<Rightarrow> length_s s = 0)"

text \<open>
  A function that takes a \<^verbatim>\<open>str**\<close> returns its result together with the handle
  \<^verbatim>\<open>*s\<close> as the call leaves it.
\<close>

definition str_ensure_capacity :: "alloc \<Rightarrow> str option \<Rightarrow> nat \<Rightarrow> (bool \<times> str option) option" where
  "str_ensure_capacity a s capacity =
     (case s of
        None \<Rightarrow> Some (False, None)
      | Some s0 \<Rightarrow>
          if capacity_s s0 \<ge> capacity then Some (True, Some s0)
          else do {
            capacity \<leftarrow> str_round_capacity capacity;
            Some (case realloc a (data_s s0) capacity of
                    None \<Rightarrow> (False, Some s0)
                  | Some mem \<Rightarrow> (True, Some (s0\<lparr>capacity_s := capacity, data_s := mem\<rparr>)))
          })"

subsection \<open>Modification\<close>

definition str_append :: "alloc \<Rightarrow> str option \<Rightarrow> string option \<Rightarrow> (bool \<times> str option) option" where
  "str_append a s append_arg =
     (case (s, append_arg) of
        (Some s0, Some append_arg) \<Rightarrow> do {
          let append_len = strlen append_arg;
          (ok, s1) \<leftarrow> str_ensure_capacity a (Some s0) (sz_add (sz_add (length_s s0) append_len) 1);
          case (ok, s1) of
            (True, Some s1) \<Rightarrow>
              Some (True, Some (s1\<lparr>data_s := memcpy (data_s s1) (length_s s1)
                                                  (take (append_len + 1) (append_arg @ [NUL])),
                                     length_s := sz_add (length_s s1) append_len\<rparr>))
          | _ \<Rightarrow> Some (False, s1)
        }
      | _ \<Rightarrow> Some (False, s))"

text \<open>\<open>str_append_fmt\<close> reads \<^verbatim>\<open>(*s)->length\<close> without a check of \<^verbatim>\<open>s\<close>, so its
  buffer is not null. \<open>dry\<close> is the sizing pass and \<open>pass\<close> the pass that stores.\<close>

definition str_append_fmt :: "alloc \<Rightarrow> fmt \<Rightarrow> fmt \<Rightarrow> str \<Rightarrow> (bool \<times> str option) option" where
  "str_append_fmt a dry pass s0 =
     (let size_n = fst (vsnprintf [] 0 0 dry) in
      if size_n < 0 then Some (False, Some s0)
      else do {
        (ok, s1) \<leftarrow> str_ensure_capacity a (Some s0) (sz_add (sz_add (length_s s0) (nat size_n)) 1);
        case (ok, s1) of
          (True, Some s1) \<Rightarrow>
            (let (written, mem) = vsnprintf (data_s s1) (length_s s1) (nat (size_n + 1)) pass in
             if written < 0 \<or> written \<ge> size_n
             then Some (True, Some (s1\<lparr>length_s := sz_add (length_s s1) (nat size_n),
                                         data_s := mem[sz_add (length_s s1) (nat size_n) := NUL]\<rparr>))
             else Some (True, Some (s1\<lparr>length_s := sz_add (length_s s1) (nat written),
                                         data_s := mem\<rparr>)))
        | _ \<Rightarrow> Some (False, s1)
      })"

definition str_append_char :: "alloc \<Rightarrow> str option \<Rightarrow> char \<Rightarrow> (bool \<times> str option) option" where
  "str_append_char a s c =
     (case s of
        None \<Rightarrow> Some (False, None)
      | Some s0 \<Rightarrow> do {
          (ok, s1) \<leftarrow> str_ensure_capacity a (Some s0) (sz_add (length_s s0) 2);
          case (ok, s1) of
            (True, Some s1) \<Rightarrow>
              Some (True, Some (s1\<lparr>data_s := (data_s s1)[length_s s1 := c,
                                                             sz_add (length_s s1) 1 := NUL],
                                     length_s := sz_add (length_s s1) 1\<rparr>))
          | _ \<Rightarrow> Some (False, s1)
        })"

definition str_prepend :: "alloc \<Rightarrow> str option \<Rightarrow> string option \<Rightarrow> (bool \<times> str option) option" where
  "str_prepend a s prepend =
     (case (s, prepend) of
        (Some s0, Some prepend) \<Rightarrow> do {
          let prepend_len = strlen prepend;
          (ok, s1) \<leftarrow> str_ensure_capacity a (Some s0) (sz_add (sz_add (length_s s0) prepend_len) 1);
          case (ok, s1) of
            (True, Some s1) \<Rightarrow>
              Some (True, Some (s1\<lparr>data_s := memcpy (memmove (data_s s1) prepend_len 0
                                                            (sz_add (length_s s1) 1))
                                                  0 (take prepend_len (prepend @ [NUL])),
                                     length_s := sz_add (length_s s1) prepend_len\<rparr>))
          | _ \<Rightarrow> Some (False, s1)
        }
      | _ \<Rightarrow> Some (False, s))"

definition str_insert :: "alloc \<Rightarrow> str option \<Rightarrow> nat \<Rightarrow> string option \<Rightarrow> (bool \<times> str option) option" where
  "str_insert a s index insert_arg =
     (case (s, insert_arg) of
        (Some s0, Some insert_arg) \<Rightarrow>
          if index > length_s s0 then Some (False, s)
          else do {
            let insert_len = strlen insert_arg;
            (ok, s1) \<leftarrow> str_ensure_capacity a (Some s0) (sz_add (sz_add (length_s s0) insert_len) 1);
            case (ok, s1) of
              (True, Some s1) \<Rightarrow>
                Some (True, Some (s1\<lparr>data_s := memcpy (memmove (data_s s1) (index + insert_len) index
                                                              (sz_add (sz_sub (length_s s1) index) 1))
                                                    index (take insert_len (insert_arg @ [NUL])),
                                       length_s := sz_add (length_s s1) insert_len\<rparr>))
            | _ \<Rightarrow> Some (False, s1)
          }
      | _ \<Rightarrow> Some (False, s))"

definition str_remove :: "str option \<Rightarrow> nat \<Rightarrow> nat \<Rightarrow> bool \<times> str option" where
  "str_remove s index count =
     (case s of
        None \<Rightarrow> (False, None)
      | Some s0 \<Rightarrow>
          if index \<ge> length_s s0 then (False, s)
          else
            let count = min count (sz_sub (length_s s0) index) in
            (True, Some (s0\<lparr>data_s := memmove (data_s s0) index (index + count)
                                            (sz_add (sz_sub (sz_sub (length_s s0) index) count) 1),
                              length_s := sz_sub (length_s s0) count\<rparr>)))"

definition str_clear :: "str option \<Rightarrow> str option" where
  "str_clear s =
     (case s of
        None \<Rightarrow> None
      | Some s \<Rightarrow> Some (s\<lparr>length_s := 0, data_s := (data_s s)[0 := NUL]\<rparr>))"

text \<open>The loop of \<open>str_remove_all\<close>; \<open>p\<close> is the offset of the pointer \<^verbatim>\<open>p\<close> in the
  data block.\<close>

partial_function (option) str_remove_all_loop ::
  "string \<Rightarrow> nat \<Rightarrow> str \<Rightarrow> nat \<Rightarrow> nat \<Rightarrow> (nat \<times> str) option" where
  "str_remove_all_loop substr substr_len s p count =
     (case strstr (drop p (data_s s)) substr of
        None \<Rightarrow> Some (count, s)
      | Some k \<Rightarrow>
          str_remove_all_loop substr substr_len
            (s\<lparr>data_s := memmove (data_s s) (p + k) (p + k + substr_len)
                             (sz_add (sz_sub (sz_sub (length_s s) (p + k)) substr_len) 1),
               length_s := sz_sub (length_s s) substr_len\<rparr>)
            (p + k) (sz_add count 1))"

definition str_remove_all :: "str option \<Rightarrow> string option \<Rightarrow> (nat \<times> str option) option" where
  "str_remove_all s substr =
     (case (s, substr) of
        (Some s0, Some substr) \<Rightarrow>
          map_option (\<lambda>(count, s1). (count, Some s1))
            (str_remove_all_loop substr (strlen substr) s0 0 0)
      | _ \<Rightarrow> Some (0, s))"

definition str_resize :: "alloc \<Rightarrow> str option \<Rightarrow> nat \<Rightarrow> (bool \<times> str option) option" where
  "str_resize a s new_length =
     (case s of
        None \<Rightarrow> Some (False, None)
      | Some s0 \<Rightarrow> do {
          (ok, s1) \<leftarrow> str_ensure_capacity a (Some s0) (sz_add new_length 1);
          case (ok, s1) of
            (True, Some s1) \<Rightarrow>
              (let mem = (if new_length > length_s s1
                          then memset (data_s s1) (length_s s1) NUL (sz_sub new_length (length_s s1))
                          else data_s s1)
               in Some (True, Some (s1\<lparr>length_s := new_length, data_s := mem[new_length := NUL]\<rparr>)))
          | _ \<Rightarrow> Some (False, s1)
        })"

subsection \<open>Access\<close>

definition str_at :: "str option \<Rightarrow> nat \<Rightarrow> char" where
  "str_at s index =
     (case s of
        Some s \<Rightarrow> if index < length_s s then data_s s ! index else NUL
      | None \<Rightarrow> NUL)"

definition str_data :: "str option \<Rightarrow> char list option" where
  "str_data s = map_option data_s s"

definition str_cstr :: "str option \<Rightarrow> char list option" where
  "str_cstr s = map_option data_s s"

subsection \<open>Comparison and search\<close>

definition str_compare :: "str option \<Rightarrow> str option \<Rightarrow> int" where
  "str_compare s1 s2 =
     (case (s1, s2) of
        (Some a, Some b) \<Rightarrow> strcmp (data_s a) (data_s b)
      | (None, None) \<Rightarrow> 0
      | (Some a, None) \<Rightarrow> 1
      | (None, Some b) \<Rightarrow> - 1)"

definition str_equals :: "str option \<Rightarrow> str option \<Rightarrow> bool" where
  "str_equals s1 s2 = (str_compare s1 s2 = 0)"

definition str_find :: "str option \<Rightarrow> string option \<Rightarrow> int" where
  "str_find s substr =
     (case (s, substr) of
        (Some s, Some substr) \<Rightarrow>
          (case strstr (data_s s) substr of
             Some found \<Rightarrow> to_int found
           | None \<Rightarrow> STR_NPOS)
      | _ \<Rightarrow> STR_NPOS)"

text \<open>The loop of \<open>str_rfind\<close>: \<open>i\<close> runs from \<open>length - substr_len + 1\<close> down to 1 and
  the candidate position is \<open>i - 1\<close>.\<close>

function str_rfind_loop :: "char list \<Rightarrow> string \<Rightarrow> nat \<Rightarrow> nat \<Rightarrow> int" where
  "str_rfind_loop mem substr substr_len i =
     (if i > 0 then
        if memcmp (drop (i - 1) mem) substr substr_len = 0 then to_int (i - 1)
        else str_rfind_loop mem substr substr_len (i - 1)
      else STR_NPOS)"
  by pat_completeness auto
termination
  by (relation "measure (\<lambda>(mem, substr, substr_len, i). i)") auto

definition str_rfind :: "str option \<Rightarrow> string option \<Rightarrow> int" where
  "str_rfind s substr =
     (case (s, substr) of
        (Some s, Some substr) \<Rightarrow>
          if hd (substr @ [NUL]) = NUL then STR_NPOS
          else let substr_len = strlen substr in
            if substr_len > length_s s then STR_NPOS
            else str_rfind_loop (data_s s) substr substr_len
                   (sz_add (sz_sub (length_s s) substr_len) 1)
      | _ \<Rightarrow> STR_NPOS)"

definition str_starts_with :: "str option \<Rightarrow> string option \<Rightarrow> bool" where
  "str_starts_with s prefix =
     (case (s, prefix) of
        (Some s, Some prefix) \<Rightarrow>
          (let prefix_len = strlen prefix in
           length_s s \<ge> prefix_len \<and> memcmp (data_s s) prefix prefix_len = 0)
      | _ \<Rightarrow> False)"

definition str_ends_with :: "str option \<Rightarrow> string option \<Rightarrow> bool" where
  "str_ends_with s suffix =
     (case (s, suffix) of
        (Some s, Some suffix) \<Rightarrow>
          (let suffix_len = strlen suffix in
           length_s s \<ge> suffix_len
           \<and> memcmp (drop (sz_sub (length_s s) suffix_len) (data_s s)) suffix suffix_len = 0)
      | _ \<Rightarrow> False)"

subsection \<open>Transformation\<close>

text \<open>A function that works in place on a \<^verbatim>\<open>str*\<close> returns the buffer as the call
  leaves it.\<close>

definition str_to_lower :: "str option \<Rightarrow> str option" where
  "str_to_lower s =
     (case s of
        None \<Rightarrow> None
      | Some s \<Rightarrow>
          Some (s\<lparr>data_s := fold (\<lambda>i mem. mem[i := tolower (mem ! i)])
                                 [0..<length_s s] (data_s s)\<rparr>))"

definition str_to_upper :: "str option \<Rightarrow> str option" where
  "str_to_upper s =
     (case s of
        None \<Rightarrow> None
      | Some s \<Rightarrow>
          Some (s\<lparr>data_s := fold (\<lambda>i mem. mem[i := toupper (mem ! i)])
                                 [0..<length_s s] (data_s s)\<rparr>))"

text \<open>
  \<^verbatim>\<open>void str_snake_case(str* s)\<close> takes the handle by value and passes the address of
  its own parameter \<^verbatim>\<open>s\<close> to \<open>str_insert\<close>, whose result it drops. When
  \<^verbatim>\<open>realloc\<close> answers with a block at another address, the old block is freed and only
  the parameter is updated: the handle of the caller still points to the freed block.
  \<open>allocs i\<close> is the answer of the allocator to the request made in the round of the loop
  with index \<open>i\<close>, and \<open>moves i\<close> says that this answer is a block at another address.
  \<open>str_ensure_capacity\<close> changes the capacity exactly when \<^verbatim>\<open>realloc\<close> has answered.
  The loop returns the buffer behind the parameter together with the flag \<open>moved\<close>, which
  says that the block has moved since the call began.
\<close>

partial_function (option) str_snake_case_loop ::
  "(nat \<Rightarrow> alloc) \<Rightarrow> (nat \<Rightarrow> bool) \<Rightarrow> str \<Rightarrow> bool \<Rightarrow> nat \<Rightarrow> (str option \<times> bool) option" where
  "str_snake_case_loop allocs moves s moved i =
     (if i < length_s s then
        if isupper (data_s s ! i) then
          (let s1 = s\<lparr>data_s := (data_s s)[i := tolower (data_s s ! i)]\<rparr> in
           if i > 0 then do {
             (ok, s2) \<leftarrow> str_insert (allocs i) (Some s1) i (Some ''_'');
             case s2 of
               Some s2 \<Rightarrow>
                 str_snake_case_loop allocs moves s2
                   (moved \<or> (capacity_s s2 \<noteq> capacity_s s1 \<and> moves i))
                   (sz_add (sz_add i 1) 1)
             | None \<Rightarrow> Some (None, moved)
           }
           else str_snake_case_loop allocs moves s1 moved (sz_add i 1))
        else str_snake_case_loop allocs moves s moved (sz_add i 1)
      else Some (Some s, moved))"

text \<open>
  What the caller holds when the call has returned: \<open>Buffer s'\<close> when its handle still
  points to the block that the function worked on, which then is \<open>s'\<close>, and \<open>Freed\<close> when
  the block has moved, so that the handle of the caller points to freed memory.
\<close>

datatype caller_view = Buffer "str option" | Freed

definition str_snake_case ::
  "(nat \<Rightarrow> alloc) \<Rightarrow> (nat \<Rightarrow> bool) \<Rightarrow> str option \<Rightarrow> caller_view option" where
  "str_snake_case allocs moves s =
     (case s of
        None \<Rightarrow> Some (Buffer None)
      | Some s \<Rightarrow> do {
          (s', moved) \<leftarrow> str_snake_case_loop allocs moves s False 0;
          Some (if moved then Freed else Buffer s')
        })"

function str_camel_case_loop ::
  "nat \<Rightarrow> char list \<Rightarrow> nat \<Rightarrow> nat \<Rightarrow> bool \<Rightarrow> char list \<times> nat" where
  "str_camel_case_loop len mem read write capitalize_next =
     (if read < len then
        (let c = mem ! read in
         if c = CHR '' '' \<or> c = CHR ''_''
         then str_camel_case_loop len mem (read + 1) write True
         else if capitalize_next
         then str_camel_case_loop len (mem[write := toupper c]) (read + 1) (write + 1) False
         else str_camel_case_loop len (mem[write := tolower c]) (read + 1) (write + 1)
                capitalize_next)
      else (mem, write))"
  by pat_completeness auto
termination
  by (relation "measure (\<lambda>(len, mem, read, write, capitalize_next). len - read)") auto

definition str_camel_case :: "str option \<Rightarrow> str option" where
  "str_camel_case s =
     (case s of
        None \<Rightarrow> None
      | Some s0 \<Rightarrow>
          if length_s s0 = 0 then s
          else
            let (mem, write) =
                  str_camel_case_loop (length_s s0) ((data_s s0)[0 := tolower (data_s s0 ! 0)])
                    1 1 False
            in Some (s0\<lparr>data_s := mem[write := NUL], length_s := write\<rparr>))"

function str_pascal_case_loop ::
  "nat \<Rightarrow> char list \<Rightarrow> nat \<Rightarrow> nat \<Rightarrow> bool \<Rightarrow> char list \<times> nat" where
  "str_pascal_case_loop len mem read write new_word =
     (if read < len then
        (let c = mem ! read in
         if c = CHR '' '' \<or> c = CHR ''_''
         then str_pascal_case_loop len mem (read + 1) write True
         else if new_word
         then str_pascal_case_loop len (mem[write := toupper c]) (read + 1) (write + 1) False
         else if isupper c \<and> read + 1 < len \<and> islower (mem ! (read + 1))
         then str_pascal_case_loop len (mem[write := c]) (read + 1) (write + 1) False
         else str_pascal_case_loop len (mem[write := tolower c]) (read + 1) (write + 1) new_word)
      else (mem, write))"
  by pat_completeness auto
termination
  by (relation "measure (\<lambda>(len, mem, read, write, new_word). len - read)") auto

definition str_pascal_case :: "str option \<Rightarrow> str option" where
  "str_pascal_case s =
     (case s of
        None \<Rightarrow> None
      | Some s0 \<Rightarrow>
          if length_s s0 = 0 then s
          else
            let (mem, write) = str_pascal_case_loop (length_s s0) (data_s s0) 0 0 True
            in Some (s0\<lparr>data_s := mem[write := NUL], length_s := write\<rparr>))"

text \<open>The two loops of \<open>str_trim\<close>, the loop of \<open>str_rtrim\<close> and the loop of
  \<open>str_ltrim\<close>.\<close>

function str_trim_loop1 :: "char list \<Rightarrow> nat \<Rightarrow> nat \<Rightarrow> nat" where
  "str_trim_loop1 mem len start =
     (if start < len \<and> isspace (mem ! start) then str_trim_loop1 mem len (start + 1)
      else start)"
  by pat_completeness auto
termination
  by (relation "measure (\<lambda>(mem, len, start). len - start)") auto

function str_trim_loop2 :: "char list \<Rightarrow> nat \<Rightarrow> nat \<Rightarrow> nat" where
  "str_trim_loop2 mem start end_p =
     (if end_p > start \<and> isspace (mem ! end_p) then str_trim_loop2 mem start (end_p - 1)
      else end_p)"
  by pat_completeness auto
termination
  by (relation "measure (\<lambda>(mem, start, end_p). end_p)") auto

definition str_trim :: "str option \<Rightarrow> str option" where
  "str_trim s =
     (case s of
        None \<Rightarrow> None
      | Some s0 \<Rightarrow>
          if length_s s0 = 0 then s
          else
            let start = str_trim_loop1 (data_s s0) (length_s s0) 0;
                end_p = str_trim_loop2 (data_s s0) start (sz_sub (length_s s0) 1);
                new_length = sz_add (sz_sub end_p start) 1
            in Some (s0\<lparr>length_s := new_length,
                          data_s := (memmove (data_s s0) 0 start new_length)[new_length := NUL]\<rparr>))"

function str_rtrim_loop :: "char list \<Rightarrow> nat \<Rightarrow> nat" where
  "str_rtrim_loop mem end_p =
     (if end_p > 0 \<and> isspace (mem ! end_p) then str_rtrim_loop mem (end_p - 1)
      else end_p)"
  by pat_completeness auto
termination
  by (relation "measure (\<lambda>(mem, end_p). end_p)") auto

definition str_rtrim :: "str option \<Rightarrow> str option" where
  "str_rtrim s =
     (case s of
        None \<Rightarrow> None
      | Some s0 \<Rightarrow>
          if length_s s0 = 0 then s
          else
            let end_p = str_rtrim_loop (data_s s0) (sz_sub (length_s s0) 1);
                new_length = sz_add end_p 1
            in Some (s0\<lparr>length_s := new_length, data_s := (data_s s0)[new_length := NUL]\<rparr>))"

function str_ltrim_loop :: "char list \<Rightarrow> nat \<Rightarrow> nat \<Rightarrow> nat" where
  "str_ltrim_loop mem len start =
     (if start < len \<and> isspace (mem ! start) then str_ltrim_loop mem len (start + 1)
      else start)"
  by pat_completeness auto
termination
  by (relation "measure (\<lambda>(mem, len, start). len - start)") auto

definition str_ltrim :: "str option \<Rightarrow> str option" where
  "str_ltrim s =
     (case s of
        None \<Rightarrow> None
      | Some s0 \<Rightarrow>
          if length_s s0 = 0 then s
          else
            let start = str_ltrim_loop (data_s s0) (length_s s0) 0;
                new_length = sz_sub (length_s s0) start
            in Some (s0\<lparr>length_s := new_length,
                          data_s := (memmove (data_s s0) 0 start new_length)[new_length := NUL]\<rparr>))"

subsection \<open>Substrings and replacements\<close>

definition str_substr :: "alloc \<Rightarrow> str option \<Rightarrow> nat \<Rightarrow> nat \<Rightarrow> str option option" where
  "str_substr a s start length_arg =
     (case s of
        None \<Rightarrow> Some None
      | Some s0 \<Rightarrow>
          if start \<ge> length_s s0 then Some None
          else do {
            let len = min length_arg (sz_sub (length_s s0) start);
            result \<leftarrow> str_new a (sz_add len 1);
            Some (case result of
                    None \<Rightarrow> None
                  | Some r \<Rightarrow>
                      Some (r\<lparr>data_s := (memcpy (data_s r) 0 (take len (drop start (data_s s0))))
                                           [len := NUL],
                              length_s := len\<rparr>))
          })"

text \<open>
  The two loops of \<open>str_replace\<close>. The first counts with \<^verbatim>\<open>strstr\<close>; \<open>p\<close> is the
  offset of the pointer \<^verbatim>\<open>p\<close> in the data block of \<open>s\<close>. The second runs while
  \<^verbatim>\<open>*p\<close> is not the terminator and fills the data block \<open>dest_mem\<close> of the result
  from offset \<open>dest\<close> on.
\<close>

partial_function (option) str_replace_loop1 ::
  "char list \<Rightarrow> string \<Rightarrow> nat \<Rightarrow> nat \<Rightarrow> nat \<Rightarrow> nat option" where
  "str_replace_loop1 mem old old_len p count =
     (case strstr (drop p mem) old of
        None \<Rightarrow> Some count
      | Some k \<Rightarrow> str_replace_loop1 mem old old_len (p + k + old_len) (sz_add count 1))"

partial_function (option) str_replace_loop2 ::
  "char list \<Rightarrow> string \<Rightarrow> nat \<Rightarrow> string \<Rightarrow> nat \<Rightarrow> nat \<Rightarrow> char list \<Rightarrow> nat
   \<Rightarrow> (char list \<times> nat) option" where
  "str_replace_loop2 mem old old_len new new_len p dest_mem dest =
     (if mem ! p \<noteq> NUL then
        if strncmp (drop p mem) old old_len = 0
        then str_replace_loop2 mem old old_len new new_len (p + old_len)
               (memcpy dest_mem dest (take new_len (new @ [NUL]))) (dest + new_len)
        else str_replace_loop2 mem old old_len new new_len (p + 1)
               (dest_mem[dest := mem ! p]) (dest + 1)
      else Some (dest_mem, dest))"

definition str_replace ::
  "alloc \<Rightarrow> str option \<Rightarrow> string option \<Rightarrow> string option \<Rightarrow> str option option" where
  "str_replace a s old new =
     (case (s, old, new) of
        (Some s0, Some old, Some new) \<Rightarrow> do {
          let old_len = strlen old;
          let new_len = strlen new;
          count \<leftarrow> str_replace_loop1 (data_s s0) old old_len 0 0;
          let result_len = sz_add (length_s s0) (sz_mul count (sz_sub new_len old_len));
          result \<leftarrow> str_new a (sz_add result_len 1);
          case result of
            None \<Rightarrow> Some None
          | Some r \<Rightarrow> do {
              (mem, dest) \<leftarrow> str_replace_loop2 (data_s s0) old old_len new new_len 0 (data_s r) 0;
              Some (Some (r\<lparr>data_s := mem[dest := NUL], length_s := result_len\<rparr>))
            }
        }
      | _ \<Rightarrow> Some None)"

text \<open>The two loops of \<open>str_replace_all\<close>.\<close>

partial_function (option) str_replace_all_loop1 ::
  "char list \<Rightarrow> string \<Rightarrow> nat \<Rightarrow> nat \<Rightarrow> nat \<Rightarrow> nat option" where
  "str_replace_all_loop1 mem old old_len p count =
     (case strstr (drop p mem) old of
        None \<Rightarrow> Some count
      | Some k \<Rightarrow> str_replace_all_loop1 mem old old_len (p + k + old_len) (sz_add count 1))"

partial_function (option) str_replace_all_loop2 ::
  "char list \<Rightarrow> string \<Rightarrow> nat \<Rightarrow> string \<Rightarrow> nat \<Rightarrow> nat \<Rightarrow> char list \<Rightarrow> nat
   \<Rightarrow> (char list \<times> nat) option" where
  "str_replace_all_loop2 mem old old_len new new_len p dest_mem dest =
     (if mem ! p \<noteq> NUL then
        if strncmp (drop p mem) old old_len = 0
        then str_replace_all_loop2 mem old old_len new new_len (p + old_len)
               (memcpy dest_mem dest (take new_len (new @ [NUL]))) (dest + new_len)
        else str_replace_all_loop2 mem old old_len new new_len (p + 1)
               (dest_mem[dest := mem ! p]) (dest + 1)
      else Some (dest_mem, dest))"

definition str_replace_all ::
  "alloc \<Rightarrow> str option \<Rightarrow> string option \<Rightarrow> string option \<Rightarrow> str option option" where
  "str_replace_all a s old new =
     (case (s, old, new) of
        (Some s0, Some old, Some new) \<Rightarrow> do {
          let old_len = strlen old;
          let new_len = strlen new;
          count \<leftarrow> str_replace_all_loop1 (data_s s0) old old_len 0 0;
          let result_len = sz_add (length_s s0) (sz_mul count (sz_sub new_len old_len));
          result \<leftarrow> str_new a (sz_add result_len 1);
          case result of
            None \<Rightarrow> Some None
          | Some r \<Rightarrow> do {
              (mem, dest) \<leftarrow>
                str_replace_all_loop2 (data_s s0) old old_len new new_len 0 (data_s r) 0;
              Some (Some (r\<lparr>data_s := mem[dest := NUL], length_s := result_len\<rparr>))
            }
        }
      | _ \<Rightarrow> Some None)"

subsection \<open>Splitting and joining\<close>

text \<open>
  \<open>str_split\<close> returns the array of the segments, a list here, whose length is the value
  stored in \<^verbatim>\<open>*count\<close>; the pointer \<^verbatim>\<open>count\<close> is not null. \<open>start\<close> is the offset
  of the pointer \<^verbatim>\<open>start\<close> in the data block. \<open>allocs n\<close> answers the request for the
  segment with index \<open>n\<close>, \<open>arr\<close> the request for the array. The division by
  \<^verbatim>\<open>delim_len\<close> traps when the delimiter is empty, and the call does not return.
\<close>

definition str_split_segment :: "str \<Rightarrow> str \<Rightarrow> nat \<Rightarrow> nat \<Rightarrow> str" where
  "str_split_segment r s start len =
     r\<lparr>data_s := (memcpy (data_s r) 0 (take len (drop start (data_s s))))[len := NUL],
       length_s := len\<rparr>"

partial_function (option) str_split_loop ::
  "(nat \<Rightarrow> alloc) \<Rightarrow> str \<Rightarrow> string \<Rightarrow> nat \<Rightarrow> nat \<Rightarrow> str list \<Rightarrow> str list option option" where
  "str_split_loop allocs s delim delim_len start result =
     (case strstr (drop start (data_s s)) delim of
        Some len \<Rightarrow> do {
          r \<leftarrow> str_new (allocs (length result)) (sz_add len 1);
          case r of
            None \<Rightarrow> Some None
          | Some r \<Rightarrow>
              str_split_loop allocs s delim delim_len (start + len + delim_len)
                (result @ [str_split_segment r s start len])
        }
      | None \<Rightarrow> do {
          let len = sz_sub (length_s s) start;
          r \<leftarrow> str_new (allocs (length result)) (sz_add len 1);
          Some (case r of
                  None \<Rightarrow> None
                | Some r \<Rightarrow> Some (result @ [str_split_segment r s start len]))
        })"

definition str_split ::
  "alloc \<Rightarrow> (nat \<Rightarrow> alloc) \<Rightarrow> str option \<Rightarrow> string option \<Rightarrow> str list option option" where
  "str_split arr allocs s delim =
     (case (s, delim) of
        (Some s, Some delim) \<Rightarrow>
          (let delim_len = strlen delim in
           if delim_len = 0 then None
           else
             let max_splits = sz_add (length_s s div delim_len) 1 in
             case malloc arr (sz_mul max_splits 8) of
               None \<Rightarrow> Some None
             | Some _ \<Rightarrow> str_split_loop allocs s delim delim_len 0 [])
      | _ \<Rightarrow> Some None)"

text \<open>
  The two loops of \<open>str_join\<close> over the array \<open>strings\<close>. The first adds the lengths and
  stops with \<open>None\<close> at a null element, where \<open>str_join\<close> returns \<^verbatim>\<open>NULL\<close>; the second
  fills the data block \<open>mem\<close> of the result from offset \<open>dest\<close> on.
\<close>

function str_join_loop1 :: "str option list \<Rightarrow> nat \<Rightarrow> nat \<Rightarrow> nat \<Rightarrow> nat option" where
  "str_join_loop1 strings count i total_len =
     (if i < count then
        (case strings ! i of
           None \<Rightarrow> None
         | Some t \<Rightarrow> str_join_loop1 strings count (i + 1) (sz_add total_len (length_s t)))
      else Some total_len)"
  by pat_completeness auto
termination
  by (relation "measure (\<lambda>(strings, count, i, total_len). count - i)") auto

function str_join_loop2 ::
  "str option list \<Rightarrow> nat \<Rightarrow> string \<Rightarrow> nat \<Rightarrow> nat \<Rightarrow> char list \<Rightarrow> nat \<Rightarrow> char list \<times> nat" where
  "str_join_loop2 strings count delim delim_len i mem dest =
     (if i < count then
        (case strings ! i of
           None \<Rightarrow> (mem, dest)
         | Some t \<Rightarrow>
             if i > 0
             then str_join_loop2 strings count delim delim_len (i + 1)
                    (memcpy (memcpy mem dest (take delim_len (delim @ [NUL])))
                       (dest + delim_len) (take (length_s t) (data_s t)))
                    (dest + delim_len + length_s t)
             else str_join_loop2 strings count delim delim_len (i + 1)
                    (memcpy mem dest (take (length_s t) (data_s t)))
                    (dest + length_s t))
      else (mem, dest))"
  by pat_completeness auto
termination
  by (relation "measure (\<lambda>(strings, count, delim, delim_len, i, mem, dest). count - i)") auto

definition str_join ::
  "alloc \<Rightarrow> str option list option \<Rightarrow> nat \<Rightarrow> string option \<Rightarrow> str option option" where
  "str_join a strings count delim =
     (case (strings, delim) of
        (Some strings, Some delim) \<Rightarrow>
          if count = 0 then Some None
          else
            (let delim_len = strlen delim in
             case str_join_loop1 strings count 0 0 of
               None \<Rightarrow> Some None
             | Some total_len \<Rightarrow> do {
                 let total_len = sz_add total_len (sz_mul (sz_sub count 1) delim_len);
                 result \<leftarrow> str_new a (sz_add total_len 1);
                 Some (case result of
                         None \<Rightarrow> None
                       | Some r \<Rightarrow>
                           (let (mem, dest) =
                                  str_join_loop2 strings count delim delim_len 0 (data_s r) 0
                            in Some (r\<lparr>data_s := mem[dest := NUL], length_s := total_len\<rparr>)))
               })
      | _ \<Rightarrow> Some None)"

subsection \<open>Reversal\<close>

text \<open>The loop of \<open>str_reverse\<close> runs \<open>len\<close> times; \<open>src\<close> and \<open>dest\<close> are offsets in the
  data blocks of the argument and of the result.\<close>

function str_reverse_loop ::
  "char list \<Rightarrow> nat \<Rightarrow> char list \<Rightarrow> nat \<Rightarrow> nat \<Rightarrow> char list \<times> nat" where
  "str_reverse_loop src_mem src dest_mem dest len =
     (if len \<noteq> 0
      then str_reverse_loop src_mem (src - 1) (dest_mem[dest := src_mem ! src]) (dest + 1)
             (len - 1)
      else (dest_mem, dest))"
  by pat_completeness auto
termination
  by (relation "measure (\<lambda>(src_mem, src, dest_mem, dest, len). len)") auto

definition str_reverse :: "alloc \<Rightarrow> str option \<Rightarrow> str option" where
  "str_reverse a s =
     (case s of
        None \<Rightarrow> None
      | Some s \<Rightarrow>
          if length_s s = 0 then None
          else
            (case malloc a (sz_add (length_s s) 1) of
               None \<Rightarrow> None
             | Some mem \<Rightarrow>
                 (let (mem, dest) =
                        str_reverse_loop (data_s s) (sz_sub (length_s s) 1) mem 0 (length_s s)
                  in Some \<lparr>length_s = length_s s, capacity_s = sz_add (length_s s) 1,
                           data_s = mem[dest := NUL]\<rparr>)))"

function str_reverse_in_place_loop :: "char list \<Rightarrow> nat \<Rightarrow> nat \<Rightarrow> char list" where
  "str_reverse_in_place_loop mem start end_p =
     (if start < end_p then
        (let temp = mem ! start in
         str_reverse_in_place_loop (mem[start := mem ! end_p, end_p := temp])
           (start + 1) (end_p - 1))
      else mem)"
  by pat_completeness auto
termination
  by (relation "measure (\<lambda>(mem, start, end_p). end_p - start)") auto

definition str_reverse_in_place :: "str option \<Rightarrow> str option" where
  "str_reverse_in_place s =
     (case s of
        None \<Rightarrow> None
      | Some s0 \<Rightarrow>
          if length_s s0 < 2 then s
          else Some (s0\<lparr>data_s := str_reverse_in_place_loop (data_s s0) 0
                                     (sz_sub (length_s s0) 1)\<rparr>))"

section \<open>Notions used in the statements\<close>

text \<open>The bytes a buffer holds, and the invariant of the data model: the length is below
  the capacity, the data block has \<open>capacity\<close> bytes, which is at most \<open>2 ^ 63\<close> (the
  largest power of two that a \<^verbatim>\<open>size_t\<close> holds), and the byte at index \<open>length\<close>
  is the terminator.\<close>

definition content :: "str \<Rightarrow> string" where
  "content s = take (length_s s) (data_s s)"

definition str_inv :: "str \<Rightarrow> bool" where
  "str_inv s \<longleftrightarrow>
     length_s s < capacity_s s \<and> capacity_s s \<le> 2 ^ 63
     \<and> length (data_s s) = capacity_s s \<and> data_s s ! length_s s = NUL"

text \<open>An allocator answer for the examples: the request succeeds and the fresh memory
  holds question marks.\<close>

definition fresh :: alloc where
  "fresh = Some (\<lambda>_. CHR ''?'')"

text \<open>The segments \<open>xs\<close> joined with the delimiter \<open>d\<close> between them; \<open>tail_join\<close> puts
  the delimiter before every segment.\<close>

fun join_contents :: "string \<Rightarrow> string list \<Rightarrow> string" where
  "join_contents d [] = []"
| "join_contents d [x] = x"
| "join_contents d (x # y # ys) = x @ d @ join_contents d (y # ys)"

definition tail_join :: "string \<Rightarrow> string list \<Rightarrow> string" where
  "tail_join d xs = concat (map (\<lambda>x. d @ x) xs)"

text \<open>
  What the header and the README promise of \<open>str_replace_all\<close>, on strings: the
  occurrences of \<open>old\<close> in \<open>hay\<close> are found from left to right, an occurrence starts
  only after the end of the one before, \<open>replace_every\<close> puts \<open>new\<close> in the place of each
  and \<open>occurrences\<close> counts them. The empty string occurs nowhere.
\<close>

function replace_every :: "string \<Rightarrow> string \<Rightarrow> string \<Rightarrow> string" where
  "replace_every old new hay =
     (if old = [] \<or> hay = [] then hay
      else if take (length old) hay = old
      then new @ replace_every old new (drop (length old) hay)
      else hd hay # replace_every old new (tl hay))"
  by pat_completeness auto
termination
  by (relation "measure (\<lambda>(old, new, hay). length hay)") auto

function occurrences :: "string \<Rightarrow> string \<Rightarrow> nat" where
  "occurrences old hay =
     (if old = [] \<or> hay = [] then 0
      else if take (length old) hay = old
      then 1 + occurrences old (drop (length old) hay)
      else occurrences old (tl hay))"
  by pat_completeness auto
termination
  by (relation "measure (\<lambda>(old, hay). length hay)") auto

text \<open>
  One successful mutating operation: \<open>mutation s s'\<close> holds when an operation that works
  on the buffer \<open>s\<close> in place, or through a \<^verbatim>\<open>str**\<close>, succeeds and leaves the buffer
  \<open>s'\<close>. A string argument and a requested length are below \<open>2 ^ 63\<close> bytes, as every
  object of the C implementation is. For \<open>str_snake_case\<close> the buffer \<open>s'\<close> is the one
  that the caller holds afterwards, which it does when the block has not moved.
\<close>

inductive mutation :: "str \<Rightarrow> str \<Rightarrow> bool" where
  ensure_capacity:
    "str_ensure_capacity a (Some s) capacity = Some (True, Some s') \<Longrightarrow> mutation s s'"
| append:
    "strlen x < 2 ^ 63 \<Longrightarrow> str_append a (Some s) (Some x) = Some (True, Some s')
     \<Longrightarrow> mutation s s'"
| append_fmt:
    "fst (vsnprintf [] 0 0 dry) < 2 ^ 63
     \<Longrightarrow> str_append_fmt a dry pass s = Some (True, Some s') \<Longrightarrow> mutation s s'"
| append_char:
    "str_append_char a (Some s) c = Some (True, Some s') \<Longrightarrow> mutation s s'"
| prepend:
    "strlen x < 2 ^ 63 \<Longrightarrow> str_prepend a (Some s) (Some x) = Some (True, Some s')
     \<Longrightarrow> mutation s s'"
| insert:
    "strlen x < 2 ^ 63 \<Longrightarrow> str_insert a (Some s) index (Some x) = Some (True, Some s')
     \<Longrightarrow> mutation s s'"
| remove:
    "str_remove (Some s) index count = (True, Some s') \<Longrightarrow> mutation s s'"
| remove_all:
    "str_remove_all (Some s) (Some substr) = Some (n, Some s') \<Longrightarrow> mutation s s'"
| clear:
    "str_clear (Some s) = Some s' \<Longrightarrow> mutation s s'"
| resize:
    "new_length < 2 ^ 63 \<Longrightarrow> str_resize a (Some s) new_length = Some (True, Some s')
     \<Longrightarrow> mutation s s'"
| to_lower:
    "str_to_lower (Some s) = Some s' \<Longrightarrow> mutation s s'"
| to_upper:
    "str_to_upper (Some s) = Some s' \<Longrightarrow> mutation s s'"
| snake_case:
    "str_snake_case allocs moves (Some s) = Some (Buffer (Some s')) \<Longrightarrow> mutation s s'"
| camel_case:
    "str_camel_case (Some s) = Some s' \<Longrightarrow> mutation s s'"
| pascal_case:
    "str_pascal_case (Some s) = Some s' \<Longrightarrow> mutation s s'"
| trim:
    "str_trim (Some s) = Some s' \<Longrightarrow> mutation s s'"
| rtrim:
    "str_rtrim (Some s) = Some s' \<Longrightarrow> mutation s s'"
| ltrim:
    "str_ltrim (Some s) = Some s' \<Longrightarrow> mutation s s'"
| reverse_in_place:
    "str_reverse_in_place (Some s) = Some s' \<Longrightarrow> mutation s s'"

declare str_camel_case_loop.simps [simp del]
declare str_pascal_case_loop.simps [simp del]
declare str_trim_loop1.simps [simp del]
declare str_trim_loop2.simps [simp del]
declare str_rtrim_loop.simps [simp del]
declare str_ltrim_loop.simps [simp del]
declare str_join_loop1.simps [simp del]
declare str_join_loop2.simps [simp del]
declare str_reverse_in_place_loop.simps [simp del]
declare str_reverse_loop.simps [simp del]
declare str_rfind_loop.simps [simp del]
declare replace_every.simps [simp del]
declare occurrences.simps [simp del]

chapter \<open>Properties\<close>

section \<open>Sizes and capacities\<close>

lemmas sz_defs = sz_add_def sz_sub_def sz_mul_def

lemma sz_add_id: "a + b < 2 ^ 64 \<Longrightarrow> sz_add a b = a + b"
  by (simp add: sz_add_def)

lemma sz_sub_id: "b \<le> a \<Longrightarrow> a < 2 ^ 64 \<Longrightarrow> sz_sub a b = a - b"
proof -
  assume le: "b \<le> a" and lt: "a < 2 ^ 64"
  define M :: nat where "M = 2 ^ 64"
  have "sz_sub a b = (a + M - b) mod M"
    using le lt by (simp add: sz_sub_def M_def)
  also have "a + M - b = (a - b) + M"
    using le by simp
  also have "((a - b) + M) mod M = a - b"
    using lt by (simp add: M_def)
  finally show ?thesis .
qed

lemma sz_mul_id: "a * b < 2 ^ 64 \<Longrightarrow> sz_mul a b = a * b"
  by (simp add: sz_mul_def)

lemma sz_mul_2_pow: "k < 63 \<Longrightarrow> sz_mul (2 ^ k) 2 = 2 ^ Suc k"
proof -
  assume "k < 63"
  then have "Suc k < 64" by simp
  then have "(2::nat) ^ Suc k < 2 ^ 64" by (rule power_strict_increasing) simp
  then show ?thesis by (simp add: sz_mul_def mult.commute)
qed

text \<open>Started at a power of two, the doubling loop stops at the least power of two that
  reaches the request, as long as the request is at most \<open>2 ^ 63\<close>.\<close>

lemma round_capacity_loop_pow:
  assumes "capacity \<le> 2 ^ 63" and "k \<le> 63"
  shows "\<exists>j. str_round_capacity_loop (2 ^ k) capacity = Some (2 ^ j) \<and> k \<le> j \<and> j \<le> 63
             \<and> capacity \<le> 2 ^ j \<and> (j = k \<or> 2 ^ (j - 1) < capacity)"
  using assms(2)
proof (induction "63 - k" arbitrary: k)
  case 0
  then have k: "k = 63" by simp
  show ?case
    by (rule exI[of _ k]) (use assms(1) k in \<open>simp add: str_round_capacity_loop.simps\<close>)
next
  case (Suc n)
  then have k: "k < 63" by simp
  show ?case
  proof (cases "2 ^ k < capacity")
    case False
    then show ?thesis
      by (intro exI[of _ k]) (use Suc.prems in \<open>simp add: str_round_capacity_loop.simps\<close>)
  next
    case True
    have "n = 63 - Suc k" "Suc k \<le> 63"
      using Suc.hyps(2) k by arith+
    from Suc.hyps(1)[OF this]
    obtain j where j: "str_round_capacity_loop (2 ^ Suc k) capacity = Some (2 ^ j)"
      "Suc k \<le> j" "j \<le> 63" "capacity \<le> 2 ^ j" "j = Suc k \<or> 2 ^ (j - 1) < capacity"
      by auto
    have "str_round_capacity_loop (2 ^ k) capacity = str_round_capacity_loop (2 ^ Suc k) capacity"
      using True sz_mul_2_pow[OF k] by (subst str_round_capacity_loop.simps) simp
    moreover have "2 ^ (j - 1) < capacity"
      using j(5) True by auto
    ultimately show ?thesis
      using j by (intro exI[of _ j]) auto
  qed
qed

lemma round_capacity:
  assumes "capacity \<le> 2 ^ 63"
  shows "\<exists>j. str_round_capacity capacity = Some (2 ^ j) \<and> 4 \<le> j \<and> j \<le> 63
             \<and> capacity \<le> 2 ^ j \<and> (j = 4 \<or> 2 ^ (j - 1) < capacity)"
  using round_capacity_loop_pow[OF assms, of 4]
  by (simp add: str_round_capacity_def STR_MIN_CAPACITY_def)

section \<open>Stores into a block\<close>

lemma length_memcpy: "off + length bytes \<le> length mem \<Longrightarrow> length (memcpy mem off bytes) = length mem"
  by (simp add: memcpy_def)

lemma nth_memcpy:
  "off + length bytes \<le> length mem \<Longrightarrow> i < length mem \<Longrightarrow>
   memcpy mem off bytes ! i =
     (if i < off then mem ! i else if i < off + length bytes then bytes ! (i - off) else mem ! i)"
  by (auto simp: memcpy_def nth_append)

lemma take_memcpy_before: "n \<le> off \<Longrightarrow> off \<le> length mem \<Longrightarrow> take n (memcpy mem off bytes) = take n mem"
  by (simp add: memcpy_def)

lemma take_memcpy_end:
  "off \<le> length mem \<Longrightarrow> take (off + length bytes) (memcpy mem off bytes) = take off mem @ bytes"
  by (simp add: memcpy_def)

lemma round_capacity_loop_ge:
  "str_round_capacity_loop result capacity = Some c \<Longrightarrow> capacity \<le> c"
  by (rule str_round_capacity_loop.raw_induct[where P = "\<lambda>result capacity c. capacity \<le> c"])
     (auto split: if_splits)

lemma round_capacity_ge: "str_round_capacity capacity = Some c \<Longrightarrow> capacity \<le> c"
  unfolding str_round_capacity_def by (rule round_capacity_loop_ge)

lemma ensure_capacity_failure:
  "str_ensure_capacity a (Some s) n = Some (False, s') \<Longrightarrow> s' = Some s"
  by (auto simp: str_ensure_capacity_def split: if_splits bind_splits option.splits)

lemma round_capacity_loop_pow2:
  "str_round_capacity_loop result capacity = Some c \<Longrightarrow>
   (result = 0 \<longrightarrow> capacity = 0)
   \<and> ((\<exists>k. 4 \<le> k \<and> k \<le> 63 \<and> result = 2 ^ k) \<longrightarrow> (\<exists>j. 4 \<le> j \<and> j \<le> 63 \<and> c = 2 ^ j))"
proof (rule str_round_capacity_loop.raw_induct
    [where P = "\<lambda>result capacity c. (result = 0 \<longrightarrow> capacity = 0)
       \<and> ((\<exists>k. 4 \<le> k \<and> k \<le> 63 \<and> result = 2 ^ k) \<longrightarrow> (\<exists>j. 4 \<le> j \<and> j \<le> 63 \<and> c = 2 ^ j))"],
    goal_cases)
  case (1 loop result capacity c)
  show ?case
  proof (intro conjI impI)
    assume "result = 0"
    show "capacity = 0"
    proof (rule ccontr)
      assume "capacity \<noteq> 0"
      with \<open>result = 0\<close> 1(3) have "loop 0 capacity = Some c"
        by (simp add: sz_mul_def)
      from 1(2)[OF this] \<open>capacity \<noteq> 0\<close> show False by simp
    qed
  next
    assume "\<exists>k. 4 \<le> k \<and> k \<le> 63 \<and> result = 2 ^ k"
    then obtain k where k: "4 \<le> k" "k \<le> 63" "result = 2 ^ k" by blast
    show "\<exists>j. 4 \<le> j \<and> j \<le> 63 \<and> c = 2 ^ j"
    proof (cases "result < capacity")
      case False
      with 1(3) k show ?thesis by auto
    next
      case True
      with 1(3) have next_step: "loop (sz_mul result 2) capacity = Some c" by simp
      show ?thesis
      proof (cases "k < 63")
        case True
        with next_step k have "loop (2 ^ Suc k) capacity = Some c"
          by (simp only: sz_mul_2_pow)
        from 1(2)[OF this] k True show ?thesis
          by (metis Suc_leI le_SucI)
      next
        case False
        with k have "k = 63" by simp
        with k have "sz_mul result 2 = 0" by (simp add: sz_mul_def)
        with next_step have "loop 0 capacity = Some c" by simp
        from 1(2)[OF this] \<open>result < capacity\<close> show ?thesis by simp
      qed
    qed
  qed
qed

lemma round_capacity_pow2:
  assumes "str_round_capacity capacity = Some c"
  shows "\<exists>j. 4 \<le> j \<and> j \<le> 63 \<and> c = 2 ^ j"
proof -
  have "\<exists>k. 4 \<le> k \<and> k \<le> 63 \<and> (16::nat) = 2 ^ k"
    by (rule exI[of _ 4]) simp
  with round_capacity_loop_pow2[of 16 capacity c] assms show ?thesis
    by (simp add: str_round_capacity_def STR_MIN_CAPACITY_def)
qed

section \<open>The invariant is kept by every mutating operation\<close>

subsection \<open>Growth and the operations that grow\<close>

lemma take_strlen_terminated: "take (strlen x + 1) (x @ [NUL]) = c_str x @ [NUL]"
  by (induction x) (simp_all add: strlen_def c_str_def)

lemma take_strlen: "take (strlen x) (x @ [NUL]) = c_str x"
  by (induction x) (simp_all add: strlen_def c_str_def)

lemma length_c_str: "length (c_str x) = strlen x"
  by (simp add: strlen_def)

lemma pow2_le_63: "j \<le> 63 \<Longrightarrow> (2::nat) ^ j \<le> 2 ^ 63"
  by (rule power_increasing) simp_all

lemma ensure_capacity_inv:
  assumes "str_ensure_capacity a (Some s) n = Some (True, s')" and "str_inv s"
  obtains s1 where "s' = Some s1" "str_inv s1" "length_s s1 = length_s s" "n \<le> capacity_s s1"
    "take (capacity_s s) (data_s s1) = data_s s" "capacity_s s \<le> capacity_s s1"
proof (cases "n \<le> capacity_s s")
  case True
  with assms have "s' = Some s" by (simp add: str_ensure_capacity_def)
  moreover have "take (capacity_s s) (data_s s) = data_s s"
    using assms(2) by (simp add: str_inv_def)
  ultimately show ?thesis
    using True assms(2) by (intro that[of s]) simp_all
next
  case False
  with assms(1) obtain c junk where c: "str_round_capacity n = Some c" and a: "a = Some junk"
    and s': "s' = Some (s\<lparr>capacity_s := c, data_s := take c (data_s s) @ map junk [length (data_s s)..<c]\<rparr>)"
    by (auto simp: str_ensure_capacity_def realloc_def split: bind_splits option.splits)
  from round_capacity_ge[OF c] False have ge: "capacity_s s \<le> c" "n \<le> c" by simp_all
  from round_capacity_pow2[OF c] obtain j where j: "j \<le> 63" "c = 2 ^ j" by blast
  have "c \<le> 2 ^ 63" unfolding j(2) by (rule pow2_le_63[OF j(1)])
  with ge assms(2) have "str_inv (s\<lparr>capacity_s := c, data_s := take c (data_s s) @ map junk [length (data_s s)..<c]\<rparr>)"
    by (simp add: str_inv_def nth_append)
  moreover have "take (capacity_s s) (take c (data_s s) @ map junk [length (data_s s)..<c]) = data_s s"
    using ge assms(2) by (simp add: str_inv_def)
  ultimately show ?thesis
    using ge s' by (intro that[of "s\<lparr>capacity_s := c, data_s := take c (data_s s) @ map junk [length (data_s s)..<c]\<rparr>"]) simp_all
qed

lemma ensure_capacity_nth:
  assumes "take (capacity_s s) (data_s s1) = data_s s" "i < capacity_s s"
  shows "data_s s1 ! i = data_s s ! i"
  using assms by (metis nth_take)

lemma ensure_capacity_take:
  assumes "take (capacity_s s) (data_s s1) = data_s s" "n \<le> capacity_s s"
  shows "take n (data_s s1) = take n (data_s s)"
  using assms by (metis min.absorb_iff2 take_take min.commute)

lemma take_prefix_bytes:
  "n \<le> length mem \<Longrightarrow> take (n + length b) (take n mem @ b @ rest) = take n mem @ b"
  by simp

lemma nth_prefix_bytes:
  "n \<le> length mem \<Longrightarrow> (take n mem @ b @ c # rest) ! (n + length b) = c"
  by (simp add: nth_append)

lemma str_append_inv:
  assumes "str_append a (Some s) (Some x) = Some (True, s')" and "str_inv s" and "strlen x < 2 ^ 63"
  obtains s1 where "s' = Some s1" "str_inv s1" "content s1 = content s @ c_str x"
    "length_s s1 = length_s s + strlen x"
proof -
  from assms(2) have len: "length_s s < capacity_s s" "capacity_s s \<le> 2 ^ 63"
    "length (data_s s) = capacity_s s"
    by (simp_all add: str_inv_def)
  with assms(3) have sum: "length_s s + strlen x + 1 < 2 ^ 64" by simp
  then have n: "sz_add (sz_add (length_s s) (strlen x)) 1 = length_s s + strlen x + 1"
    "sz_add (sz_add (length_s s) (strlen x)) (Suc 0) = length_s s + strlen x + 1"
    by (simp_all add: sz_add_def)
  from assms(1) obtain e where e: "str_ensure_capacity a (Some s) (length_s s + strlen x + 1) = Some (True, e)"
    by (auto simp: str_append_def Let_def n split: bind_splits option.splits bool.splits)
  obtain s1 where s1: "e = Some s1" "str_inv s1"
    "length_s s1 = length_s s" "length_s s + strlen x + 1 \<le> capacity_s s1"
    "take (capacity_s s) (data_s s1) = data_s s" "capacity_s s \<le> capacity_s s1"
    by (rule ensure_capacity_inv[OF e assms(2)])
  define r where "r = s1\<lparr>data_s := memcpy (data_s s1) (length_s s1) (take (strlen x + 1) (x @ [NUL])),
                         length_s := sz_add (length_s s1) (strlen x)\<rparr>"
  from assms(1) e s1(1) have s': "s' = Some r"
    by (simp add: str_append_def Let_def n r_def)
  have size1: "length (data_s s1) = capacity_s s1" "capacity_s s1 \<le> 2 ^ 63"
    using s1(2) by (simp_all add: str_inv_def)
  have lr: "length_s r = length_s s + strlen x"
    using sum s1(3) by (simp add: r_def sz_add_def)
  have dr: "data_s r = take (length_s s) (data_s s1) @ c_str x @ NUL # drop (length_s s + strlen x + 1) (data_s s1)"
    by (simp only: r_def take_strlen_terminated) (simp add: memcpy_def s1(3) length_c_str)
  have cr: "capacity_s r = capacity_s s1"
    by (simp add: r_def)
  have le1: "length_s s \<le> length (data_s s1)"
    using s1(4) size1(1) by simp
  have "data_s r ! (length_s s + length (c_str x)) = NUL"
    unfolding dr by (rule nth_prefix_bytes[OF le1])
  moreover have "length (data_s r) = capacity_s s1"
    using s1(4) size1(1) by (simp add: dr length_c_str)
  ultimately have inv_r: "str_inv r"
    using s1(4) size1(2) by (simp add: str_inv_def cr lr length_c_str)
  have "take (length_s s + length (c_str x)) (data_s r) = take (length_s s) (data_s s1) @ c_str x"
    unfolding dr by (rule take_prefix_bytes[OF le1])
  moreover have "take (length_s s) (data_s s1) = take (length_s s) (data_s s)"
    using len(1) by (intro ensure_capacity_take[OF s1(5)]) simp
  ultimately have c: "content r = content s @ c_str x"
    by (simp add: content_def lr length_c_str)
  show ?thesis by (rule that[OF s' inv_r c lr])
qed

lemma length_memmove:
  "s + n \<le> length mem \<Longrightarrow> d + n \<le> length mem \<Longrightarrow> length (memmove mem d s n) = length mem"
  by (simp add: memmove_def memcpy_def)

lemma nth_memmove:
  "s + n \<le> length mem \<Longrightarrow> d + n \<le> length mem \<Longrightarrow> i < length mem \<Longrightarrow>
   memmove mem d s n ! i = (if d \<le> i \<and> i < d + n then mem ! (s + (i - d)) else mem ! i)"
  by (auto simp: memmove_def memcpy_def nth_append)

lemma length_memset:
  "off + n \<le> length mem \<Longrightarrow> length (memset mem off c n) = length mem"
  by (simp add: memset_def memcpy_def)

lemma str_invD:
  assumes "str_inv s"
  shows "length_s s < capacity_s s" "capacity_s s \<le> 2 ^ 63" "length (data_s s) = capacity_s s"
    "data_s s ! length_s s = NUL" "length_s s < 2 ^ 64" "capacity_s s < 2 ^ 64"
    "length_s s < length (data_s s)"
  using assms by (simp_all add: str_inv_def)

lemma str_append_char_inv:
  assumes "str_append_char a (Some s) c = Some (True, s')" and "str_inv s"
  obtains s1 where "s' = Some s1" "str_inv s1" "length_s s1 = length_s s + 1"
proof -
  note inv = str_invD[OF assms(2)]
  have n: "sz_add (length_s s) 2 = length_s s + 2"
    using inv(1,2) by (simp add: sz_add_def)
  from assms(1) obtain e where e: "str_ensure_capacity a (Some s) (length_s s + 2) = Some (True, e)"
    by (auto simp: str_append_char_def n split: bind_splits option.splits bool.splits)
  obtain s1 where s1: "e = Some s1" "str_inv s1"
    "length_s s1 = length_s s" "length_s s + 2 \<le> capacity_s s1"
    "take (capacity_s s) (data_s s1) = data_s s" "capacity_s s \<le> capacity_s s1"
    by (rule ensure_capacity_inv[OF e assms(2)])
  note inv1 = str_invD[OF s1(2)]
  define r where "r = s1\<lparr>data_s := (data_s s1)[length_s s1 := c, sz_add (length_s s1) 1 := NUL],
                         length_s := sz_add (length_s s1) 1\<rparr>"
  have one: "sz_add (length_s s1) 1 = length_s s + 1" "sz_add (length_s s1) (Suc 0) = length_s s + 1"
    using inv(1,2) s1(3) by (simp_all add: sz_add_def)
  from assms(1) e s1(1) have s': "s' = Some r"
    by (simp add: str_append_char_def n r_def)
  have "str_inv r"
    using s1(4) inv1(2,3) by (simp add: str_inv_def r_def one)
  then show ?thesis
    using s' by (intro that[of r]) (simp_all add: r_def one)
qed

lemma take_strlen_split: "take (strlen x) x @ take (strlen x - length x) [NUL] = c_str x"
  using take_strlen[of x] by simp

lemma insert_bytes_inv:
  assumes "str_inv s1" and "index \<le> length_s s1" and "length_s s1 + length b + 1 \<le> capacity_s s1"
  shows "str_inv (s1\<lparr>data_s := memcpy (memmove (data_s s1) (index + length b) index
                                     (length_s s1 - index + 1)) index b,
                    length_s := length_s s1 + length b\<rparr>)"
proof -
  note inv1 = str_invD[OF assms(1)]
  let ?moved = "memmove (data_s s1) (index + length b) index (length_s s1 - index + 1)"
  have lm: "length ?moved = capacity_s s1"
    using assms(2,3) inv1(3) by (simp add: length_memmove)
  have "?moved ! (length_s s1 + length b) = data_s s1 ! length_s s1"
    using assms(2,3) inv1(3) by (simp add: nth_memmove)
  then have "memcpy ?moved index b ! (length_s s1 + length b) = NUL"
    using assms(2,3) lm inv1(4) by (simp add: nth_memcpy)
  moreover have "length (memcpy ?moved index b) = capacity_s s1"
    using assms(2,3) lm by (simp add: length_memcpy)
  ultimately show ?thesis
    using assms(3) inv1(2) by (simp add: str_inv_def)
qed

lemma str_insert_inv:
  assumes "str_insert a (Some s) index (Some x) = Some (True, s')" and "str_inv s"
    and "strlen x < 2 ^ 63"
  obtains s1 where "s' = Some s1" "str_inv s1" "length_s s1 = length_s s + strlen x"
proof -
  note inv = str_invD[OF assms(2)]
  have n: "sz_add (sz_add (length_s s) (strlen x)) 1 = length_s s + strlen x + 1"
    "sz_add (sz_add (length_s s) (strlen x)) (Suc 0) = length_s s + strlen x + 1"
    using inv(1,2) assms(3) by (simp_all add: sz_add_def)
  from assms(1) have index: "index \<le> length_s s"
    by (auto simp: str_insert_def split: if_splits)
  with assms(1) obtain e where
    e: "str_ensure_capacity a (Some s) (length_s s + strlen x + 1) = Some (True, e)"
    by (auto simp: str_insert_def Let_def n split: bind_splits option.splits bool.splits)
  obtain s1 where s1: "e = Some s1" "str_inv s1"
    "length_s s1 = length_s s" "length_s s + strlen x + 1 \<le> capacity_s s1"
    "take (capacity_s s) (data_s s1) = data_s s" "capacity_s s \<le> capacity_s s1"
    by (rule ensure_capacity_inv[OF e assms(2)])
  define r where "r = s1\<lparr>data_s := memcpy (memmove (data_s s1) (index + length (c_str x)) index
                                     (length_s s1 - index + 1)) index (c_str x),
                         length_s := length_s s1 + length (c_str x)\<rparr>"
  have sub: "sz_sub (length_s s1) index = length_s s1 - index"
    using index s1(3) inv(5) by (simp add: sz_sub_id)
  have add1: "sz_add (length_s s1 - index) 1 = length_s s1 - index + 1"
    "sz_add (length_s s1 - index) (Suc 0) = length_s s1 - index + 1"
    using inv(1,2) s1(3) by (simp_all add: sz_add_def)
  have add2: "sz_add (length_s s1) (strlen x) = length_s s1 + strlen x"
    using inv(1,2) s1(3) assms(3) by (simp add: sz_add_def)
  from assms(1) e s1(1) index have s': "s' = Some r"
    by (simp add: str_insert_def Let_def n r_def sub add1 add2 take_strlen_split length_c_str)
  have "str_inv r"
    unfolding r_def using s1(2) index s1(3,4) by (intro insert_bytes_inv) (simp_all add: length_c_str)
  then show ?thesis
    using s' by (intro that[of r]) (simp_all add: r_def s1(3) length_c_str)
qed

lemma str_prepend_inv:
  assumes "str_prepend a (Some s) (Some x) = Some (True, s')" and "str_inv s"
    and "strlen x < 2 ^ 63"
  obtains s1 where "s' = Some s1" "str_inv s1" "length_s s1 = length_s s + strlen x"
proof -
  note inv = str_invD[OF assms(2)]
  have n: "sz_add (sz_add (length_s s) (strlen x)) 1 = length_s s + strlen x + 1"
    "sz_add (sz_add (length_s s) (strlen x)) (Suc 0) = length_s s + strlen x + 1"
    using inv(1,2) assms(3) by (simp_all add: sz_add_def)
  from assms(1) obtain e where
    e: "str_ensure_capacity a (Some s) (length_s s + strlen x + 1) = Some (True, e)"
    by (auto simp: str_prepend_def Let_def n split: bind_splits option.splits bool.splits)
  obtain s1 where s1: "e = Some s1" "str_inv s1"
    "length_s s1 = length_s s" "length_s s + strlen x + 1 \<le> capacity_s s1"
    "take (capacity_s s) (data_s s1) = data_s s" "capacity_s s \<le> capacity_s s1"
    by (rule ensure_capacity_inv[OF e assms(2)])
  define r where "r = s1\<lparr>data_s := memcpy (memmove (data_s s1) (0 + length (c_str x)) 0
                                     (length_s s1 - 0 + 1)) 0 (c_str x),
                         length_s := length_s s1 + length (c_str x)\<rparr>"
  have add1: "sz_add (length_s s1) 1 = length_s s1 + 1"
    "sz_add (length_s s1) (Suc 0) = length_s s1 + 1"
    using inv(1,2) s1(3) by (simp_all add: sz_add_def)
  have add2: "sz_add (length_s s1) (strlen x) = length_s s1 + strlen x"
    using inv(1,2) s1(3) assms(3) by (simp add: sz_add_def)
  from assms(1) e s1(1) have s': "s' = Some r"
    by (simp add: str_prepend_def Let_def n r_def add1 add2 take_strlen_split length_c_str)
  have "str_inv r"
    unfolding r_def using s1(2) s1(3,4) by (intro insert_bytes_inv) (simp_all add: length_c_str)
  then show ?thesis
    using s' by (intro that[of r]) (simp_all add: r_def s1(3) length_c_str)
qed

lemma str_resize_inv:
  assumes "str_resize a (Some s) new_length = Some (True, s')" and "str_inv s"
    and "new_length < 2 ^ 63"
  obtains s1 where "s' = Some s1" "str_inv s1" "length_s s1 = new_length"
proof -
  note inv = str_invD[OF assms(2)]
  have n: "sz_add new_length 1 = new_length + 1" "sz_add new_length (Suc 0) = new_length + 1"
    using assms(3) by (simp_all add: sz_add_def)
  from assms(1) obtain e where
    e: "str_ensure_capacity a (Some s) (new_length + 1) = Some (True, e)"
    by (auto simp: str_resize_def n split: bind_splits option.splits bool.splits)
  obtain s1 where s1: "e = Some s1" "str_inv s1"
    "length_s s1 = length_s s" "new_length + 1 \<le> capacity_s s1"
    "take (capacity_s s) (data_s s1) = data_s s" "capacity_s s \<le> capacity_s s1"
    by (rule ensure_capacity_inv[OF e assms(2)])
  note inv1 = str_invD[OF s1(2)]
  define mem where "mem = (if new_length > length_s s1
       then memset (data_s s1) (length_s s1) NUL (sz_sub new_length (length_s s1))
       else data_s s1)"
  define r where "r = s1\<lparr>length_s := new_length, data_s := mem[new_length := NUL]\<rparr>"
  from assms(1) e s1(1) have s': "s' = Some r"
    by (simp add: str_resize_def n r_def mem_def)
  have "length mem = capacity_s s1"
  proof (cases "new_length > length_s s1")
    case True
    then have "sz_sub new_length (length_s s1) = new_length - length_s s1"
      using assms(3) by (simp add: sz_sub_id)
    with True s1(4) inv1(3) show ?thesis
      by (simp add: mem_def length_memset)
  qed (simp add: mem_def inv1(3))
  then have "str_inv r"
    using s1(4) inv1(2) by (simp add: str_inv_def r_def)
  then show ?thesis
    using s' by (intro that[of r]) (simp_all add: r_def)
qed

lemma str_remove_inv:
  assumes "str_remove (Some s) index count = (True, s')" and "str_inv s"
  obtains s1 where "s' = Some s1" "str_inv s1" "length_s s1 \<le> length_s s"
    "capacity_s s1 = capacity_s s"
proof -
  note inv = str_invD[OF assms(2)]
  from assms(1) have index: "index < length_s s"
    by (auto simp: str_remove_def split: if_splits)
  define cnt where "cnt = min count (length_s s - index)"
  have sub1: "sz_sub (length_s s) index = length_s s - index"
    using index inv(5) by (simp add: sz_sub_id)
  have cnt: "cnt \<le> length_s s - index" by (simp add: cnt_def)
  have sub2: "sz_sub (length_s s - index) cnt = length_s s - index - cnt"
    using cnt inv(5) by (simp add: sz_sub_id)
  have add: "sz_add (length_s s - index - cnt) 1 = length_s s - index - cnt + 1"
    "sz_add (length_s s - index - cnt) (Suc 0) = length_s s - index - cnt + 1"
    using inv(1,2) by (simp_all add: sz_add_def)
  have sub3: "sz_sub (length_s s) cnt = length_s s - cnt"
    using cnt inv(5) by (simp add: sz_sub_id)
  define r where "r = s\<lparr>data_s := memmove (data_s s) index (index + cnt) (length_s s - index - cnt + 1),
                        length_s := length_s s - cnt\<rparr>"
  from assms(1) index cnt inv(1,2) have s': "s' = Some r"
    by (simp add: str_remove_def Let_def sz_sub_id sz_add_id r_def flip: cnt_def)
  have "length (data_s r) = capacity_s s"
    using index cnt inv(1,3) by (simp add: r_def length_memmove)
  moreover have "data_s r ! (length_s s - cnt) = NUL"
  proof -
    have a: "index \<le> length_s s - cnt" "length_s s - cnt < index + (length_s s - index - cnt + 1)"
      "index + cnt + (length_s s - cnt - index) = length_s s"
      using index cnt by arith+
    have "data_s r ! (length_s s - cnt)
        = memmove (data_s s) index (index + cnt) (length_s s - index - cnt + 1) ! (length_s s - cnt)"
      by (simp add: r_def)
    also have "\<dots> = data_s s ! (index + cnt + (length_s s - cnt - index))"
      using index cnt inv(1,3) a(1,2) by (subst nth_memmove) simp_all
    also have "\<dots> = data_s s ! length_s s"
      by (simp only: a(3))
    also have "\<dots> = NUL"
      by (rule inv(4))
    finally show ?thesis .
  qed
  ultimately have "str_inv r"
    using inv(1,2) by (simp add: str_inv_def) (simp add: r_def)
  then show ?thesis
    using s' by (intro that[of r]) (simp_all add: r_def)
qed

lemma str_clear_inv:
  assumes "str_clear (Some s) = Some s1" and "str_inv s"
  shows "str_inv s1"
  using assms by (auto simp: str_clear_def str_inv_def)

lemma length_vsnprintf:
  "off + n \<le> length mem \<Longrightarrow> length (snd (vsnprintf mem off n f)) = length mem"
  by (cases f) (auto simp: vsnprintf_def length_memcpy)

lemma vsnprintf_short:
  assumes "off + n \<le> length mem" and "0 \<le> fst (vsnprintf mem off n f)"
    and "fst (vsnprintf mem off n f) < int n - 1"
  shows "snd (vsnprintf mem off n f) ! (off + nat (fst (vsnprintf mem off n f))) = NUL"
proof (cases f)
  case (Expands out)
  with assms have "length out < n - 1" "n \<noteq> 0" by (auto simp: vsnprintf_def)
  with assms(1) Expands show ?thesis
    by (simp add: vsnprintf_def nth_memcpy nth_append)
next
  case (Fails out)
  with assms(2) show ?thesis by (simp add: vsnprintf_def)
qed

lemma str_append_fmt_inv:
  assumes "str_append_fmt a dry pass s = Some (True, s')" and "str_inv s"
    and "fst (vsnprintf [] 0 0 dry) < 2 ^ 63"
  obtains s1 where "s' = Some s1" "str_inv s1"
proof -
  note inv = str_invD[OF assms(2)]
  define z where "z = fst (vsnprintf [] 0 0 dry)"
  from assms(1) have z0: "0 \<le> z"
    by (auto simp: str_append_fmt_def Let_def z_def split: if_splits)
  have z63: "nat z < 2 ^ 63"
    using assms(3) z0 by (simp add: z_def)
  have n: "sz_add (sz_add (length_s s) (nat z)) 1 = length_s s + nat z + 1"
    "sz_add (sz_add (length_s s) (nat z)) (Suc 0) = length_s s + nat z + 1"
    using inv(1,2) z63 by (simp_all add: sz_add_def)
  from assms(1) z0 obtain e where
    e: "str_ensure_capacity a (Some s) (length_s s + nat z + 1) = Some (True, e)"
    by (auto simp: str_append_fmt_def Let_def n simp flip: z_def
        split: bind_splits option.splits bool.splits if_splits prod.splits)
  obtain s1 where s1: "e = Some s1" "str_inv s1"
    "length_s s1 = length_s s" "length_s s + nat z + 1 \<le> capacity_s s1"
    "take (capacity_s s) (data_s s1) = data_s s" "capacity_s s \<le> capacity_s s1"
    by (rule ensure_capacity_inv[OF e assms(2)])
  note inv1 = str_invD[OF s1(2)]
  define w where "w = fst (vsnprintf (data_s s1) (length_s s1) (nat (z + 1)) pass)"
  define mem where "mem = snd (vsnprintf (data_s s1) (length_s s1) (nat (z + 1)) pass)"
  have vs: "vsnprintf (data_s s1) (length_s s1) (nat (z + 1)) pass = (w, mem)"
    by (simp add: w_def mem_def)
  have nz: "nat (z + 1) = nat z + 1" using z0 by simp
  have lm: "length mem = capacity_s s1"
    unfolding mem_def using s1(3,4) inv1(3) by (subst length_vsnprintf) (simp_all add: nz)
  have add: "sz_add (length_s s1) (nat z) = length_s s + nat z"
    using inv(1,2) z63 s1(3) by (simp add: sz_add_def)
  show ?thesis
  proof (cases "w < 0 \<or> w \<ge> z")
    case True
    define r where "r = s1\<lparr>length_s := length_s s + nat z, data_s := mem[length_s s + nat z := NUL]\<rparr>"
    from assms(1) e s1(1) z0 True have "s' = Some r"
      by (auto simp: str_append_fmt_def Let_def n r_def add vs simp flip: z_def)
    moreover have "str_inv r"
      using lm s1(4) inv1(2) by (simp add: str_inv_def r_def)
    ultimately show ?thesis by (rule that)
  next
    case False
    then have w: "0 \<le> w" "w < z" by simp_all
    define r where "r = s1\<lparr>length_s := length_s s + nat w, data_s := mem\<rparr>"
    have addw: "sz_add (length_s s1) (nat w) = length_s s + nat w"
      using inv(1,2) z63 s1(3) w by (simp add: sz_add_def)
    from assms(1) e s1(1) z0 False have "s' = Some r"
      by (auto simp: str_append_fmt_def Let_def n r_def addw vs simp flip: z_def)
    moreover have "snd (vsnprintf (data_s s1) (length_s s1) (nat (z + 1)) pass)
          ! (length_s s1 + nat (fst (vsnprintf (data_s s1) (length_s s1) (nat (z + 1)) pass))) = NUL"
      using s1(3,4) inv1(3) w by (intro vsnprintf_short) (simp_all add: nz w_def)
    then have "mem ! (length_s s + nat w) = NUL"
      by (simp add: mem_def w_def s1(3))
    then have "str_inv r"
      using lm s1(4) inv1(2) w by (simp add: str_inv_def r_def)
    ultimately show ?thesis by (rule that)
  qed
qed

subsection \<open>The transformations in place\<close>

lemma length_fold_update:
  "length (fold (\<lambda>i mem. mem[i := f (mem ! i)]) idxs mem) = length mem"
  by (induction idxs arbitrary: mem) simp_all

lemma nth_fold_update_other:
  "k \<notin> set idxs \<Longrightarrow> fold (\<lambda>i mem. mem[i := f (mem ! i)]) idxs mem ! k = mem ! k"
  by (induction idxs arbitrary: mem) auto

lemma str_to_lower_inv:
  assumes "str_to_lower (Some s) = Some s1" and "str_inv s"
  shows "str_inv s1"
  using assms by (auto simp: str_to_lower_def str_inv_def length_fold_update nth_fold_update_other)

lemma str_to_upper_inv:
  assumes "str_to_upper (Some s) = Some s1" and "str_inv s"
  shows "str_inv s1"
  using assms by (auto simp: str_to_upper_def str_inv_def length_fold_update nth_fold_update_other)

lemma camel_case_loop_length:
  "length (fst (str_camel_case_loop len mem rd wr c)) = length mem"
  by (induction len mem rd wr c rule: str_camel_case_loop.induct)
     (subst str_camel_case_loop.simps, simp add: Let_def)

lemma camel_case_loop_write:
  "wr \<le> rd \<Longrightarrow> snd (str_camel_case_loop len mem rd wr c) \<le> max rd len"
  by (induction len mem rd wr c rule: str_camel_case_loop.induct)
     (subst str_camel_case_loop.simps, auto simp: Let_def)

lemma str_camel_case_inv:
  assumes "str_camel_case (Some s) = Some s1" and "str_inv s"
  shows "str_inv s1"
proof (cases "length_s s = 0")
  case True
  with assms show ?thesis by (simp add: str_camel_case_def)
next
  case False
  note inv = str_invD[OF assms(2)]
  define mem0 where "mem0 = (data_s s)[0 := tolower (data_s s ! 0)]"
  define res where "res = str_camel_case_loop (length_s s) mem0 1 1 False"
  have "snd res \<le> length_s s"
    using camel_case_loop_write[of 1 1 "length_s s" mem0 False] False by (simp add: res_def)
  moreover have "length (fst res) = capacity_s s"
    using inv(3) by (simp add: res_def camel_case_loop_length mem0_def)
  moreover from assms(1) False have "s1 = s\<lparr>data_s := (fst res)[snd res := NUL], length_s := snd res\<rparr>"
    by (simp add: str_camel_case_def res_def mem0_def split: prod.splits)
  ultimately show ?thesis
    using inv(1,2) by (simp add: str_inv_def)
qed

lemma pascal_case_loop_length:
  "length (fst (str_pascal_case_loop len mem rd wr c)) = length mem"
  by (induction len mem rd wr c rule: str_pascal_case_loop.induct)
     (subst str_pascal_case_loop.simps, simp add: Let_def)

lemma pascal_case_loop_write:
  "wr \<le> rd \<Longrightarrow> snd (str_pascal_case_loop len mem rd wr c) \<le> max rd len"
  by (induction len mem rd wr c rule: str_pascal_case_loop.induct)
     (subst str_pascal_case_loop.simps, auto simp: Let_def)

lemma str_pascal_case_inv:
  assumes "str_pascal_case (Some s) = Some s1" and "str_inv s"
  shows "str_inv s1"
proof (cases "length_s s = 0")
  case True
  with assms show ?thesis by (simp add: str_pascal_case_def)
next
  case False
  note inv = str_invD[OF assms(2)]
  define res where "res = str_pascal_case_loop (length_s s) (data_s s) 0 0 True"
  have "snd res \<le> length_s s"
    using pascal_case_loop_write[of 0 0 "length_s s" "data_s s" True] by (simp add: res_def)
  moreover have "length (fst res) = capacity_s s"
    using inv(3) by (simp add: res_def pascal_case_loop_length)
  moreover from assms(1) False have "s1 = s\<lparr>data_s := (fst res)[snd res := NUL], length_s := snd res\<rparr>"
    by (simp add: str_pascal_case_def res_def split: prod.splits)
  ultimately show ?thesis
    using inv(1,2) by (simp add: str_inv_def)
qed

lemma reverse_in_place_loop_length:
  "length (str_reverse_in_place_loop mem start end_p) = length mem"
  by (induction mem start end_p rule: str_reverse_in_place_loop.induct)
     (subst str_reverse_in_place_loop.simps, simp add: Let_def)

lemma reverse_in_place_loop_outside:
  "end_p < k \<Longrightarrow> str_reverse_in_place_loop mem start end_p ! k = mem ! k"
  by (induction mem start end_p rule: str_reverse_in_place_loop.induct)
     (subst str_reverse_in_place_loop.simps, simp add: Let_def)

lemma str_reverse_in_place_inv:
  assumes "str_reverse_in_place (Some s) = Some s1" and "str_inv s"
  shows "str_inv s1"
proof (cases "length_s s < 2")
  case True
  with assms show ?thesis by (simp add: str_reverse_in_place_def)
next
  case False
  note inv = str_invD[OF assms(2)]
  have "sz_sub (length_s s) 1 = length_s s - 1"
    using False inv(5) by (simp add: sz_sub_id)
  with assms(1) False
  have "s1 = s\<lparr>data_s := str_reverse_in_place_loop (data_s s) 0 (length_s s - 1)\<rparr>"
    by (simp add: str_reverse_in_place_def)
  with False inv show ?thesis
    by (simp add: str_inv_def reverse_in_place_loop_length reverse_in_place_loop_outside)
qed

lemma trim_loop1_bounds:
  "start \<le> len \<Longrightarrow> start \<le> str_trim_loop1 mem len start \<and> str_trim_loop1 mem len start \<le> len"
  by (induction mem len start rule: str_trim_loop1.induct)
     (subst (1 2) str_trim_loop1.simps, auto)

lemma trim_loop2_le: "str_trim_loop2 mem start end_p \<le> end_p"
  by (induction mem start end_p rule: str_trim_loop2.induct)
     (subst str_trim_loop2.simps, auto)

lemma trim_loop2_ge: "start \<le> end_p \<Longrightarrow> start \<le> str_trim_loop2 mem start end_p"
  by (induction mem start end_p rule: str_trim_loop2.induct)
     (subst str_trim_loop2.simps, auto)

lemma trim_loop2_stop: "\<not> start < end_p \<Longrightarrow> str_trim_loop2 mem start end_p = end_p"
  by (subst str_trim_loop2.simps) simp

lemma sz_wrap_minus_one:
  "0 < len \<Longrightarrow> len < 2 ^ 64 \<Longrightarrow> sz_add (sz_sub (len - Suc 0) len) (Suc 0) = 0"
proof -
  assume "0 < len" "len < 2 ^ 64"
  then have "len - 1 + 2 ^ 64 - len = (2 ^ 64 - 1 :: nat)" by simp
  with \<open>0 < len\<close> \<open>len < 2 ^ 64\<close> show ?thesis
    by (simp add: sz_sub_def sz_add_def)
qed

lemma str_trim_inv:
  assumes "str_trim (Some s) = Some s1" and "str_inv s"
  shows "str_inv s1"
proof (cases "length_s s = 0")
  case True
  with assms show ?thesis by (simp add: str_trim_def)
next
  case False
  note inv = str_invD[OF assms(2)]
  define start where "start = str_trim_loop1 (data_s s) (length_s s) 0"
  define e where "e = str_trim_loop2 (data_s s) start (length_s s - 1)"
  define n where "n = sz_add (sz_sub e start) 1"
  have sub: "sz_sub (length_s s) 1 = length_s s - 1" "sz_sub (length_s s) (Suc 0) = length_s s - 1"
    using False inv(5) by (simp_all add: sz_sub_id)
  have start: "start \<le> length_s s"
    using trim_loop1_bounds[of 0 "length_s s" "data_s s"] by (simp add: start_def)
  have n: "start + n \<le> length_s s"
  proof (cases "start \<le> length_s s - 1")
    case True
    then have "start \<le> e" "e \<le> length_s s - 1"
      by (simp_all add: e_def trim_loop2_ge trim_loop2_le)
    then have "n = e - start + 1"
      using inv(1,2) by (simp add: n_def sz_sub_id sz_add_id)
    with \<open>start \<le> e\<close> \<open>e \<le> length_s s - 1\<close> False show ?thesis by simp
  next
    case False
    with start have eq: "start = length_s s" by simp
    then have "e = length_s s - 1"
      by (simp add: e_def trim_loop2_stop)
    with eq \<open>length_s s \<noteq> 0\<close> inv(5) have "n = 0"
      by (simp add: n_def sz_wrap_minus_one)
    with start show ?thesis by simp
  qed
  from assms(1) False
  have s1: "s1 = s\<lparr>length_s := n, data_s := (memmove (data_s s) 0 start n)[n := NUL]\<rparr>"
    by (simp add: str_trim_def Let_def sub n_def e_def start_def)
  have "length (memmove (data_s s) 0 start n) = capacity_s s"
    using n inv(1,3) by (simp add: length_memmove)
  with n inv(1,2) show ?thesis
    by (simp add: s1 str_inv_def)
qed

lemma rtrim_loop_le: "str_rtrim_loop mem end_p \<le> end_p"
  by (induction mem end_p rule: str_rtrim_loop.induct)
     (subst str_rtrim_loop.simps, auto)

lemma str_rtrim_inv:
  assumes "str_rtrim (Some s) = Some s1" and "str_inv s"
  shows "str_inv s1"
proof (cases "length_s s = 0")
  case True
  with assms show ?thesis by (simp add: str_rtrim_def)
next
  case False
  note inv = str_invD[OF assms(2)]
  define e where "e = str_rtrim_loop (data_s s) (length_s s - 1)"
  have sub: "sz_sub (length_s s) 1 = length_s s - 1" "sz_sub (length_s s) (Suc 0) = length_s s - 1"
    using False inv(5) by (simp_all add: sz_sub_id)
  have e: "e \<le> length_s s - 1" by (simp add: e_def rtrim_loop_le)
  then have add: "sz_add e 1 = e + 1" "sz_add e (Suc 0) = e + 1"
    using inv(1,2) by (simp_all add: sz_add_id)
  from assms(1) False
  have s1: "s1 = s\<lparr>length_s := e + 1, data_s := (data_s s)[e + 1 := NUL]\<rparr>"
    by (simp add: str_rtrim_def Let_def sub add del: One_nat_def flip: e_def)
  from e False inv show ?thesis
    by (simp add: s1 str_inv_def)
qed

lemma ltrim_loop_bounds:
  "start \<le> len \<Longrightarrow> str_ltrim_loop mem len start \<le> len"
  by (induction mem len start rule: str_ltrim_loop.induct)
     (subst str_ltrim_loop.simps, auto)

lemma str_ltrim_inv:
  assumes "str_ltrim (Some s) = Some s1" and "str_inv s"
  shows "str_inv s1"
proof (cases "length_s s = 0")
  case True
  with assms show ?thesis by (simp add: str_ltrim_def)
next
  case False
  note inv = str_invD[OF assms(2)]
  define start where "start = str_ltrim_loop (data_s s) (length_s s) 0"
  have start: "start \<le> length_s s"
    using ltrim_loop_bounds[of 0 "length_s s" "data_s s"] by (simp add: start_def)
  then have sub: "sz_sub (length_s s) start = length_s s - start"
    using inv(5) by (simp add: sz_sub_id)
  from assms(1) False
  have s1: "s1 = s\<lparr>length_s := length_s s - start,
                    data_s := (memmove (data_s s) 0 start (length_s s - start))[length_s s - start := NUL]\<rparr>"
    by (simp add: str_ltrim_def Let_def sub flip: start_def)
  have "length (memmove (data_s s) 0 start (length_s s - start)) = capacity_s s"
    using start inv(1,3) by (simp add: length_memmove)
  with start inv(1,2) show ?thesis
    by (simp add: s1 str_inv_def)
qed

subsection \<open>The loops of \<open>str_remove_all\<close> and \<open>str_snake_case\<close>\<close>

lemma find_first_bound: "find_first needle hay = Some k \<Longrightarrow> k + length needle \<le> length hay"
proof (induction hay arbitrary: k)
  case Nil
  then show ?case by (simp split: if_splits)
next
  case (Cons h t)
  show ?case
  proof (cases "take (length needle) (h # t) = needle")
    case True
    then have "length needle = length (take (length needle) (h # t))" by simp
    then have "length needle \<le> length (h # t)" by (simp del: take_Suc_Cons)
    with True Cons.prems show ?thesis by simp
  next
    case False
    with Cons.prems obtain k' where "find_first needle t = Some k'" "k = Suc k'" by auto
    with Cons.IH[of k'] show ?thesis by simp
  qed
qed

lemma strstr_bound: "strstr hay needle = Some k \<Longrightarrow> k + strlen needle \<le> strlen hay"
  unfolding strstr_def strlen_def by (rule find_first_bound)

lemma length_takeWhile_le_nth:
  "i < length xs \<Longrightarrow> \<not> P (xs ! i) \<Longrightarrow> length (takeWhile P xs) \<le> i"
  by (induction xs arbitrary: i) (auto simp: nth_Cons split: nat.splits)

lemma strlen_le_nul: "i < length xs \<Longrightarrow> xs ! i = NUL \<Longrightarrow> strlen xs \<le> i"
  unfolding strlen_def c_str_def by (rule length_takeWhile_le_nth) simp_all

lemma strlen_drop_le:
  assumes "str_inv s" and "p \<le> length_s s"
  shows "strlen (drop p (data_s s)) \<le> length_s s - p"
proof (rule strlen_le_nul)
  note inv = str_invD[OF assms(1)]
  show "length_s s - p < length (drop p (data_s s))"
    using inv(1,3) assms(2) by simp
  show "drop p (data_s s) ! (length_s s - p) = NUL"
    using inv(1,3,4) assms(2) by simp
qed

lemma remove_step_inv:
  assumes "str_inv s" and "q + n \<le> length_s s"
  shows "str_inv (s\<lparr>data_s := memmove (data_s s) q (q + n)
                              (sz_add (sz_sub (sz_sub (length_s s) q) n) 1),
                    length_s := sz_sub (length_s s) n\<rparr>)"
proof -
  note inv = str_invD[OF assms(1)]
  have sz: "sz_add (sz_sub (sz_sub (length_s s) q) n) 1 = length_s s - q - n + 1"
    "sz_sub (length_s s) n = length_s s - n"
    using assms(2) inv(1,2) by (simp_all add: sz_sub_id sz_add_id)
  let ?m = "memmove (data_s s) q (q + n) (length_s s - q - n + 1)"
  have a: "q \<le> length_s s - n" "length_s s - n < q + (length_s s - q - n + 1)"
    "q + n + (length_s s - n - q) = length_s s"
    using assms(2) by arith+
  have "?m ! (length_s s - n) = data_s s ! (q + n + (length_s s - n - q))"
    using assms(2) inv(1,3) a(1,2) by (subst nth_memmove) simp_all
  also have "\<dots> = NUL"
    using inv(4) by (simp only: a(3))
  finally have "?m ! (length_s s - n) = NUL" .
  moreover have "length ?m = capacity_s s"
    using assms(2) inv(1,3) by (simp add: length_memmove)
  ultimately show ?thesis
    using inv(1,2) by (simp add: sz str_inv_def del: One_nat_def)
qed

lemma remove_all_loop_inv:
  "str_remove_all_loop substr substr_len s p count = Some res \<Longrightarrow>
   str_inv s \<and> p \<le> length_s s \<and> substr_len = strlen substr \<longrightarrow> str_inv (snd res)"
proof (rule str_remove_all_loop.raw_induct
    [where P = "\<lambda>substr substr_len s p count res.
        str_inv s \<and> p \<le> length_s s \<and> substr_len = strlen substr \<longrightarrow> str_inv (snd res)"],
    goal_cases)
  case (1 loop substr substr_len s p count res)
  show ?case
  proof (intro impI, elim conjE)
    assume inv: "str_inv s" and p: "p \<le> length_s s" and len: "substr_len = strlen substr"
    show "str_inv (snd res)"
    proof (cases "strstr (drop p (data_s s)) substr")
      case None
      with 1(3) inv show ?thesis by auto
    next
      case (Some k)
      from strstr_bound[OF Some] strlen_drop_le[OF inv p] p
      have bound: "p + k + substr_len \<le> length_s s" by (simp add: len)
      let ?s' = "s\<lparr>data_s := memmove (data_s s) (p + k) (p + k + substr_len)
                             (sz_add (sz_sub (sz_sub (length_s s) (p + k)) substr_len) 1),
                     length_s := sz_sub (length_s s) substr_len\<rparr>"
      have "str_inv ?s'" by (rule remove_step_inv[OF inv bound])
      moreover have "p + k \<le> length_s ?s'"
        using bound str_invD(5)[OF inv] by (simp add: sz_sub_id)
      moreover from 1(3) Some have "loop substr substr_len ?s' (p + k) (sz_add count 1) = Some res"
        by simp
      ultimately show ?thesis
        using 1(2) len by blast
    qed
  qed
qed

lemma str_remove_all_inv:
  assumes "str_remove_all (Some s) (Some substr) = Some (n, s')" and "str_inv s"
  obtains s1 where "s' = Some s1" "str_inv s1"
proof -
  from assms(1) obtain s1 where
    loop: "str_remove_all_loop substr (strlen substr) s 0 0 = Some (n, s1)" and s': "s' = Some s1"
    by (auto simp: str_remove_all_def)
  from remove_all_loop_inv[OF loop] assms(2) have "str_inv s1" by simp
  with s' show ?thesis by (rule that)
qed

lemma ensure_capacity_handle:
  "str_ensure_capacity a (Some s) n = Some (ok, e) \<Longrightarrow> \<exists>s1. e = Some s1 \<and> (\<not> ok \<longrightarrow> s1 = s)"
  by (auto simp: str_ensure_capacity_def split: if_splits bind_splits option.splits)

lemma str_insert_failure:
  "str_insert a (Some s) index x = Some (False, s') \<Longrightarrow> s' = Some s"
  by (auto simp: str_insert_def Let_def dest!: ensure_capacity_handle
      split: option.splits if_splits bind_splits bool.splits)

lemma strlen_underscore: "strlen ''_'' = 1"
  by (simp add: strlen_def c_str_def)

lemma snake_case_loop_inv:
  "str_snake_case_loop allocs moves s moved i = Some res \<Longrightarrow>
   str_inv s \<longrightarrow> (\<forall>s'. fst res = Some s' \<longrightarrow> str_inv s')"
proof (rule str_snake_case_loop.raw_induct
    [where P = "\<lambda>allocs moves s moved i res.
                  str_inv s \<longrightarrow> (\<forall>s'. fst res = Some s' \<longrightarrow> str_inv s')"],
    goal_cases)
  case (1 loop allocs moves s moved i res)
  show ?case
  proof (intro impI allI)
    fix s'
    assume inv: "str_inv s" and res: "fst res = Some s'"
    note invD = str_invD[OF inv]
    show "str_inv s'"
    proof (cases "i < length_s s")
      case False
      with 1(3) res inv show ?thesis by auto
    next
      case True
      define s1 where "s1 = s\<lparr>data_s := (data_s s)[i := tolower (data_s s ! i)]\<rparr>"
      have inv1: "str_inv s1"
        using True invD by (simp add: s1_def str_inv_def)
      show ?thesis
      proof (cases "isupper (data_s s ! i)")
        case False
        with 1(3) True have "loop allocs moves s moved (sz_add i 1) = Some res" by simp
        with 1(2) inv res show ?thesis by blast
      next
        case up: True
        show ?thesis
        proof (cases "i > 0")
          case False
          with 1(3) True up have "loop allocs moves s1 moved (sz_add i 1) = Some res"
            by (simp add: s1_def)
          with 1(2) inv1 res show ?thesis by blast
        next
          case pos: True
          from 1(3) True up pos obtain ok s2 where
            ins: "str_insert (allocs i) (Some s1) i (Some ''_'') = Some (ok, Some s2)"
            and rec: "loop allocs moves s2
                        (moved \<or> (capacity_s s2 \<noteq> capacity_s s1 \<and> moves i))
                        (sz_add (sz_add i 1) 1) = Some res"
            using res by (auto simp: s1_def[symmetric] Let_def split: bind_splits option.splits)
          have "str_inv s2"
          proof (cases ok)
            case True
            with ins have ins': "str_insert (allocs i) (Some s1) i (Some ''_'') = Some (True, Some s2)"
              by simp
            show ?thesis
              by (rule str_insert_inv[OF ins' inv1]) (simp_all add: strlen_underscore)
          next
            case False
            with ins have "s2 = s1" by (auto dest: str_insert_failure)
            with inv1 show ?thesis by simp
          qed
          with 1(2) rec res show ?thesis by blast
        qed
      qed
    qed
  qed
qed

lemma str_snake_case_inv:
  assumes "str_snake_case allocs moves (Some s) = Some (Buffer (Some s1))" and "str_inv s"
  shows "str_inv s1"
proof -
  from assms(1) obtain moved where
    "str_snake_case_loop allocs moves s False 0 = Some (Some s1, moved)"
    by (auto simp: str_snake_case_def split: bind_splits if_splits)
  from snake_case_loop_inv[OF this] assms(2) show ?thesis by simp
qed

section \<open>Evaluation of the model\<close>

text \<open>Rule sets that let the simplifier run the model on a concrete input.\<close>

lemmas new_defs = str_new_def str_round_capacity_def str_round_capacity_loop.simps
  STR_MIN_CAPACITY_def sz_defs malloc_def fresh_def upt_rec

lemmas from_defs = str_from_def strlen_def c_str_def memcpy_def new_defs

lemma three_is_no_power_of_two: "(3::nat) \<noteq> 2 ^ k"
proof
  assume eq: "(3::nat) = 2 ^ k"
  then have "k \<noteq> 0" by (cases k) auto
  then have "even ((2::nat) ^ k)" by simp
  with eq have "even (3::nat)" by simp
  then show False by simp
qed

section \<open>The terminator\<close>

lemma mutation_keeps_invariant:
  assumes "mutation s s'" and "str_inv s"
  shows "str_inv s'"
  using assms
proof (induction rule: mutation.induct)
  case (ensure_capacity a s capacity s')
  then show ?case by (auto elim: ensure_capacity_inv)
next
  case (append x a s s')
  from append(2,3,1) show ?case by (auto elim: str_append_inv)
next
  case (append_fmt dry a pass s s')
  from append_fmt(2,3,1) show ?case by (auto elim: str_append_fmt_inv)
next
  case (append_char a s c s')
  then show ?case by (auto elim: str_append_char_inv)
next
  case (prepend x a s s')
  from prepend(2,3,1) show ?case by (auto elim: str_prepend_inv)
next
  case (insert x a s index s')
  from insert(2,3,1) show ?case by (auto elim: str_insert_inv)
next
  case (remove s index count s')
  then show ?case by (auto elim: str_remove_inv)
next
  case (remove_all s substr n s')
  then show ?case by (auto elim: str_remove_all_inv)
next
  case (clear s s')
  then show ?case by (rule str_clear_inv)
next
  case (resize new_length a s s')
  from resize(2,3,1) show ?case by (auto elim: str_resize_inv)
next
  case (to_lower s s')
  then show ?case by (rule str_to_lower_inv)
next
  case (to_upper s s')
  then show ?case by (rule str_to_upper_inv)
next
  case (snake_case allocs moves s s')
  then show ?case by (rule str_snake_case_inv)
next
  case (camel_case s s')
  then show ?case by (rule str_camel_case_inv)
next
  case (pascal_case s s')
  then show ?case by (rule str_pascal_case_inv)
next
  case (trim s s')
  then show ?case by (rule str_trim_inv)
next
  case (rtrim s s')
  then show ?case by (rule str_rtrim_inv)
next
  case (ltrim s s')
  then show ?case by (rule str_ltrim_inv)
next
  case (reverse_in_place s s')
  then show ?case by (rule str_reverse_in_place_inv)
qed

text \<open>
  When the buffer satisfies the invariant before a mutating operation, and the caller
  holds a buffer afterwards, the index \<open>length\<close> lies inside the data block of that buffer
  and holds the terminator. This covers every operation that mutates the buffer, the
  transformations \<open>str_snake_case\<close> and \<open>str_reverse_in_place\<close> among them.
\<close>

lemma terminator_after_every_mutation:
  assumes "str_inv s" and "mutation s s'"
  shows "length_s s' < length (data_s s') \<and> data_s s' ! length_s s' = NUL"
  using mutation_keeps_invariant[OF assms(2,1)] by (simp add: str_inv_def)

lemma snake_case_aB:
  "str_snake_case (\<lambda>_. fresh) moves
     (Some \<lparr>length_s = 2, capacity_s = 16, data_s = ''aB'' @ NUL # ''?????????????''\<rparr>)
   = Some (Buffer (Some \<lparr>length_s = 3, capacity_s = 16,
                          data_s = ''a_b'' @ NUL # ''????????????''\<rparr>))"
  by (simp add: str_snake_case_def str_snake_case_loop.simps isupper_def tolower_def char_of_eq_iff
      str_insert_def str_ensure_capacity_def strlen_def c_str_def sz_defs memmove_def memcpy_def)

lemma terminator_after_every_mutation_witness:
  "str_inv \<lparr>length_s = 2, capacity_s = 16, data_s = ''aB'' @ NUL # ''?????????????''\<rparr>
   \<and> mutation \<lparr>length_s = 2, capacity_s = 16, data_s = ''aB'' @ NUL # ''?????????????''\<rparr>
        \<lparr>length_s = 3, capacity_s = 16, data_s = ''a_b'' @ NUL # ''????????????''\<rparr>
   \<and> length_s \<lparr>length_s = 3, capacity_s = 16, data_s = ''a_b'' @ NUL # ''????????????''\<rparr>
       < length (data_s \<lparr>length_s = 3, capacity_s = 16, data_s = ''a_b'' @ NUL # ''????????????''\<rparr>)
   \<and> data_s \<lparr>length_s = 3, capacity_s = 16, data_s = ''a_b'' @ NUL # ''????????????''\<rparr>
       ! length_s \<lparr>length_s = 3, capacity_s = 16, data_s = ''a_b'' @ NUL # ''????????????''\<rparr> = NUL"
proof -
  have inv: "str_inv \<lparr>length_s = 2, capacity_s = 16, data_s = ''aB'' @ NUL # ''?????????????''\<rparr>"
    by (simp add: str_inv_def)
  have mut: "mutation \<lparr>length_s = 2, capacity_s = 16, data_s = ''aB'' @ NUL # ''?????????????''\<rparr>
        \<lparr>length_s = 3, capacity_s = 16, data_s = ''a_b'' @ NUL # ''????????????''\<rparr>"
    by (rule mutation.snake_case[OF snake_case_aB])
  from inv mut terminator_after_every_mutation[OF inv mut] show ?thesis
    by blast
qed

text \<open>
  Claim C3 says that after every successful mutating operation the byte at index
  \<open>length\<close> is the zero terminator, for \<open>str_snake_case\<close> too. Two runs of the code end
  otherwise.

  \<^item> \<open>str_snake_case\<close> on the buffer that \<open>str_from\<close> builds from
    \<^verbatim>\<open>"aaaaaaaaaaaaaaB"\<close> (length 15, capacity 16) inserts the underscore at index 14,
    for which \<open>str_insert\<close> grows the block to 32 bytes. When \<^verbatim>\<open>realloc\<close> answers
    with a block at another address, the grown buffer with its terminator at index 16 is
    behind the parameter of \<open>str_snake_case\<close> only, and the caller holds a freed block.

  \<^item> \<open>str_replace\<close> of \<^verbatim>\<open>"a"\<close> by \<^verbatim>\<open>"bb"\<close> in the buffer with the content
    \<^verbatim>\<open>a\<close>, zero, \<^verbatim>\<open>a\<close> returns a buffer of length 4 whose byte at index 4 was never
    written. \<open>str_to_upper\<close> succeeds on it, and the byte at index \<open>length\<close> of the
    buffer it leaves is that byte, not the terminator.
\<close>

theorem terminator_missing_after_mutation:
  "str_from fresh (Some ''aaaaaaaaaaaaaaB'')
     = Some (Some \<lparr>length_s = 15, capacity_s = 16, data_s = ''aaaaaaaaaaaaaaB'' @ [NUL]\<rparr>)
   \<and> str_snake_case_loop (\<lambda>_. fresh) (\<lambda>_. True)
         \<lparr>length_s = 15, capacity_s = 16, data_s = ''aaaaaaaaaaaaaaB'' @ [NUL]\<rparr> False 0
     = Some (Some \<lparr>length_s = 16, capacity_s = 32,
                    data_s = ''aaaaaaaaaaaaaa_b'' @ NUL # ''???????????????''\<rparr>, True)
   \<and> str_snake_case (\<lambda>_. fresh) (\<lambda>_. True)
         (Some \<lparr>length_s = 15, capacity_s = 16, data_s = ''aaaaaaaaaaaaaaB'' @ [NUL]\<rparr>)
     = Some Freed
   \<and> str_replace fresh
         (Some \<lparr>length_s = 3, capacity_s = 16,
                 data_s = ''a'' @ NUL # ''a'' @ NUL # ''????????????''\<rparr>)
         (Some ''a'') (Some ''bb'')
     = Some (Some \<lparr>length_s = 4, capacity_s = 16, data_s = ''bb'' @ NUL # ''?????????????''\<rparr>)
   \<and> str_to_upper (Some \<lparr>length_s = 4, capacity_s = 16, data_s = ''bb'' @ NUL # ''?????????????''\<rparr>)
     = Some \<lparr>length_s = 4, capacity_s = 16, data_s = ''BB'' @ NUL # ''?????????????''\<rparr>
   \<and> data_s \<lparr>length_s = 4, capacity_s = 16, data_s = ''BB'' @ NUL # ''?????????????''\<rparr>
       ! length_s \<lparr>length_s = 4, capacity_s = 16, data_s = ''BB'' @ NUL # ''?????????????''\<rparr>
     = CHR ''?''"
  by (simp add: from_defs str_snake_case_def str_snake_case_loop.simps isupper_def tolower_def
      toupper_def islower_def char_of_eq_iff str_insert_def str_ensure_capacity_def realloc_def
      memmove_def str_replace_def str_replace_loop1.simps str_replace_loop2.simps strstr_def
      Let_def str_to_upper_def)

section \<open>Failure of growth\<close>

lemma ensure_capacity_noop:
  "capacity \<le> capacity_s s \<Longrightarrow> str_ensure_capacity a (Some s) capacity = Some (True, Some s)"
  by (simp add: str_ensure_capacity_def)

lemma ensure_capacity_grows:
  assumes "capacity_s s < capacity" and "capacity \<le> 2 ^ 63"
  shows "\<exists>j. str_ensure_capacity (Some junk) (Some s) capacity
              = Some (True, Some (s\<lparr>capacity_s := 2 ^ j,
                    data_s := take (2 ^ j) (data_s s) @ map junk [length (data_s s)..<2 ^ j]\<rparr>))
           \<and> 4 \<le> j \<and> j \<le> 63 \<and> capacity \<le> 2 ^ j \<and> (j = 4 \<or> 2 ^ (j - 1) < capacity)"
proof -
  from round_capacity[OF assms(2)] obtain j where
    j: "str_round_capacity capacity = Some (2 ^ j)" "4 \<le> j" "j \<le> 63" "capacity \<le> 2 ^ j"
       "j = 4 \<or> 2 ^ (j - 1) < capacity"
    by blast
  with assms(1) show ?thesis
    by (intro exI[of _ j]) (simp add: str_ensure_capacity_def realloc_def)
qed

lemma ensure_capacity_fails:
  assumes "capacity_s s < capacity" and "capacity \<le> 2 ^ 63"
  shows "str_ensure_capacity None (Some s) capacity = Some (False, Some s)"
proof -
  from round_capacity[OF assms(2)] obtain j where "str_round_capacity capacity = Some (2 ^ j)"
    by blast
  with assms(1) show ?thesis
    by (simp add: str_ensure_capacity_def realloc_def)
qed

lemma str_append_failure:
  "str_append a (Some s) x = Some (False, s') \<Longrightarrow> s' = Some s"
  by (auto simp: str_append_def Let_def dest!: ensure_capacity_handle
      split: option.splits if_splits bind_splits bool.splits)

lemma str_append_char_failure:
  "str_append_char a (Some s) c = Some (False, s') \<Longrightarrow> s' = Some s"
  by (auto simp: str_append_char_def Let_def dest!: ensure_capacity_handle
      split: option.splits if_splits bind_splits bool.splits)

lemma str_prepend_failure:
  "str_prepend a (Some s) x = Some (False, s') \<Longrightarrow> s' = Some s"
  by (auto simp: str_prepend_def Let_def dest!: ensure_capacity_handle
      split: option.splits if_splits bind_splits bool.splits)

lemma str_resize_failure:
  "str_resize a (Some s) new_length = Some (False, s') \<Longrightarrow> s' = Some s"
  by (auto simp: str_resize_def Let_def dest!: ensure_capacity_handle
      split: option.splits if_splits bind_splits bool.splits)

lemma str_append_fmt_failure:
  "str_append_fmt a dry pass s = Some (False, s') \<Longrightarrow> s' = Some s"
  by (auto simp: str_append_fmt_def Let_def dest!: ensure_capacity_handle
      split: option.splits if_splits bind_splits bool.splits prod.splits)

text \<open>
  Claim C7 says that every growing mutating operation calls \<open>str_ensure_capacity\<close> first
  and propagates its failure without any partial mutation. \<open>str_ensure_capacity\<close> itself
  and the operations that return \<^verbatim>\<open>bool\<close> do so (the lemmas above).
  \<open>str_snake_case\<close> lowers the byte before it calls \<open>str_insert\<close> and drops the result
  of that call: with an allocator that refuses every request, \<open>str_insert\<close> reports the
  failure at index 14 of the buffer built from \<^verbatim>\<open>"aaaaaaaaaaaaaaB"\<close> (length 15,
  capacity 16), and \<open>str_snake_case\<close> returns normally with the last byte lowered and no
  underscore.
\<close>

theorem str_snake_case_mutates_when_growth_fails:
  "str_from fresh (Some ''aaaaaaaaaaaaaaB'')
     = Some (Some \<lparr>length_s = 15, capacity_s = 16, data_s = ''aaaaaaaaaaaaaaB'' @ [NUL]\<rparr>)
   \<and> str_insert None
         (Some \<lparr>length_s = 15, capacity_s = 16, data_s = ''aaaaaaaaaaaaaab'' @ [NUL]\<rparr>)
         14 (Some ''_'')
     = Some (False, Some \<lparr>length_s = 15, capacity_s = 16, data_s = ''aaaaaaaaaaaaaab'' @ [NUL]\<rparr>)
   \<and> str_snake_case (\<lambda>_. None) moves
         (Some \<lparr>length_s = 15, capacity_s = 16, data_s = ''aaaaaaaaaaaaaaB'' @ [NUL]\<rparr>)
     = Some (Buffer (Some \<lparr>length_s = 15, capacity_s = 16,
                          data_s = ''aaaaaaaaaaaaaab'' @ [NUL]\<rparr>))"
  by (simp add: from_defs str_snake_case_def str_snake_case_loop.simps isupper_def tolower_def
      char_of_eq_iff str_insert_def str_ensure_capacity_def realloc_def)

section \<open>Formatted append\<close>

text \<open>
  Claim C8 says that \<open>str_append_fmt\<close>, when the storing pass cannot emit everything,
  sets the length to the number of bytes really written. The branch for an error or a
  truncation adds the size of the dry run instead. Counterexample: the dry run sizes
  3 bytes and the storing pass fails before it stores a byte; the length of
  \<^verbatim>\<open>"Hello"\<close> becomes 8 although no byte was written.
\<close>

theorem str_append_fmt_error_counts_unwritten_bytes:
  "str_append_fmt fresh (Expands ''abc'') (Fails [])
      \<lparr>length_s = 5, capacity_s = 16, data_s = ''Hello'' @ NUL # ''??????????''\<rparr>
     = Some (True, Some \<lparr>length_s = 8, capacity_s = 16,
                          data_s = ''Hello'' @ NUL # ''??'' @ NUL # ''???????''\<rparr>)
   \<and> bytes_written 4 (Fails []) = 0
   \<and> (8::nat) \<noteq> 5 + bytes_written 4 (Fails [])"
  by (simp add: str_append_fmt_def vsnprintf_def str_ensure_capacity_def sz_defs memcpy_def
      bytes_written_def)

text \<open>
  Claim C8 as amended. When the dry run succeeded and the capacity could be ensured, and
  the storing pass fails or produces more than the dry run sized, \<open>str_append_fmt\<close>
  returns true, advances the length by exactly the size of the dry run and stores the
  terminator at the new length. When the pass truncated, that size is the number of
  bytes written and the buffer holds the old content followed by those bytes.
\<close>

theorem str_append_fmt_advances_by_dry_run_size:
  assumes "str_inv s" and "length_s s + length d + 1 \<le> 2 ^ 63"
    and "pass = Fails out \<or> pass = Expands out \<and> length d < length out"
  shows "\<exists>s1. str_append_fmt (Some junk) (Expands d) pass s = Some (True, Some s1)
           \<and> length_s s1 = length_s s + length d
           \<and> data_s s1 ! length_s s1 = NUL
           \<and> (pass = Expands out \<longrightarrow>
                 bytes_written (length d + 1) pass = length d
                 \<and> content s1 = content s @ take (length d) out)"
proof -
  note inv = str_invD[OF assms(1)]
  let ?n = "length_s s + length d + 1"
  have n: "sz_add (sz_add (length_s s) (length d)) 1 = ?n"
    "sz_add (sz_add (length_s s) (length d)) (Suc 0) = ?n"
    "sz_add (length_s s + length d) 1 = ?n" "sz_add (length_s s + length d) (Suc 0) = ?n"
    using assms(2) by (simp_all add: sz_add_def)
  have "\<exists>e. str_ensure_capacity (Some junk) (Some s) ?n = Some (True, e)"
  proof (cases "?n \<le> capacity_s s")
    case True
    then show ?thesis by (simp add: ensure_capacity_noop)
  next
    case False
    then have "capacity_s s < ?n" by simp
    from ensure_capacity_grows[OF this assms(2)] show ?thesis by blast
  qed
  then obtain e where e: "str_ensure_capacity (Some junk) (Some s) ?n = Some (True, e)" ..
  obtain s1 where s1: "e = Some s1" "str_inv s1"
    "length_s s1 = length_s s" "?n \<le> capacity_s s1"
    "take (capacity_s s) (data_s s1) = data_s s" "capacity_s s \<le> capacity_s s1"
    by (rule ensure_capacity_inv[OF e assms(1)])
  note inv1 = str_invD[OF s1(2)]
  define bytes where "bytes = (case pass of Expands out \<Rightarrow> take (length d) out @ [NUL]
                                           | Fails out \<Rightarrow> take (length d) out)"
  define mem where "mem = memcpy (data_s s1) (length_s s) bytes"
  define r where "r = s1\<lparr>length_s := length_s s + length d,
                         data_s := mem[length_s s + length d := NUL]\<rparr>"
  have lb: "length bytes \<le> length d + 1"
    using assms(3) by (auto simp: bytes_def)
  have lm: "length mem = capacity_s s1"
    unfolding mem_def using lb s1(4) inv1(3) by (subst length_memcpy) simp_all
  have add: "sz_add (length_s s) (length d) = length_s s + length d"
    using assms(2) by (simp add: sz_add_def)
  have nz: "nat (int (length d) + 1) = Suc (length d)"
    by simp
  have res: "str_append_fmt (Some junk) (Expands d) pass s = Some (True, Some r)"
    using assms(3) e s1(1,3)
    by (auto simp: str_append_fmt_def vsnprintf_def Let_def n add r_def mem_def bytes_def nz)
  have nul: "data_s r ! length_s r = NUL"
    using lm s1(4) by (simp add: r_def)
  have expands: "bytes_written (length d + 1) pass = length d
      \<and> content r = content s @ take (length d) out" if p: "pass = Expands out"
  proof -
    from p assms(3) have long: "length d < length out" by simp
    then have bw: "bytes_written (length d + 1) pass = length d"
      by (simp add: bytes_written_def p)
    have b: "bytes = take (length d) out @ [NUL]"
      by (simp add: bytes_def p)
    have le1: "length_s s \<le> length (data_s s1)"
      using s1(4) inv1(3) by simp
    have "take (length_s s + length (take (length d) out)) (take (length_s s) (data_s s1)
            @ take (length d) out @ (NUL # drop (length_s s + length bytes) (data_s s1)))
          = take (length_s s) (data_s s1) @ take (length d) out"
      by (rule take_prefix_bytes[OF le1])
    moreover have "length (take (length d) out) = length d"
      using long by simp
    ultimately have "take (length_s s + length d) mem = take (length_s s) (data_s s1) @ take (length d) out"
      by (simp add: mem_def memcpy_def b)
    moreover have "take (length_s s) (data_s s1) = take (length_s s) (data_s s)"
      using inv(1) by (intro ensure_capacity_take[OF s1(5)]) simp
    ultimately have "content r = content s @ take (length d) out"
      using lm s1(4) by (simp add: content_def r_def)
    with bw show ?thesis by simp
  qed
  show ?thesis
    using res nul expands by (intro exI[of _ r]) (simp add: r_def)
qed

theorem str_append_fmt_advances_by_dry_run_size_witness:
  "str_inv \<lparr>length_s = 5, capacity_s = 16, data_s = ''Hello'' @ NUL # ''??????????''\<rparr>
   \<and> (\<exists>s1. str_append_fmt (Some (\<lambda>_. CHR ''?'')) (Expands ''abc'') (Expands ''abcdef'')
               \<lparr>length_s = 5, capacity_s = 16, data_s = ''Hello'' @ NUL # ''??????????''\<rparr>
             = Some (True, Some s1)
           \<and> length_s s1 = 8 \<and> data_s s1 ! length_s s1 = NUL
           \<and> bytes_written 4 (Expands ''abcdef'') = 3
           \<and> content s1 = ''Helloabc'')"
proof -
  have inv: "str_inv \<lparr>length_s = 5, capacity_s = 16, data_s = ''Hello'' @ NUL # ''??????????''\<rparr>"
    by (simp add: str_inv_def)
  have bound: "length_s \<lparr>length_s = 5, capacity_s = 16, data_s = ''Hello'' @ NUL # ''??????????''\<rparr>
      + length ''abc'' + 1 \<le> 2 ^ 63"
    by simp
  have pass: "Expands ''abcdef'' = Fails ''abcdef''
      \<or> Expands ''abcdef'' = Expands ''abcdef'' \<and> length ''abc'' < length ''abcdef''"
    by simp
  from str_append_fmt_advances_by_dry_run_size[OF inv bound pass, of "\<lambda>_. CHR ''?''"]
  obtain s1 where s1:
    "str_append_fmt (Some (\<lambda>_. CHR ''?'')) (Expands ''abc'') (Expands ''abcdef'')
       \<lparr>length_s = 5, capacity_s = 16, data_s = ''Hello'' @ NUL # ''??????????''\<rparr>
     = Some (True, Some s1)"
    "length_s s1 = 5 + length ''abc''" "data_s s1 ! length_s s1 = NUL"
    "content s1 = content \<lparr>length_s = 5, capacity_s = 16, data_s = ''Hello'' @ NUL # ''??????????''\<rparr>
                  @ take (length ''abc'') ''abcdef''"
    by auto
  have "bytes_written 4 (Expands ''abcdef'') = 3"
    by (simp add: bytes_written_def)
  with inv s1 show ?thesis
    by (intro conjI exI[of _ s1]) (simp_all add: content_def)
qed

section \<open>Splitting and joining\<close>

lemma find_first_match:
  "find_first needle hay = Some k \<Longrightarrow> take (length needle) (drop k hay) = needle"
proof (induction hay arbitrary: k)
  case Nil
  then show ?case by (simp split: if_splits)
next
  case (Cons h t)
  show ?case
  proof (cases "take (length needle) (h # t) = needle")
    case True
    with Cons.prems show ?thesis by simp
  next
    case False
    with Cons.prems obtain k' where "find_first needle t = Some k'" "k = Suc k'" by auto
    with Cons.IH[of k'] show ?thesis by simp
  qed
qed

lemma c_str_is_take: "c_str mem = take (strlen mem) mem"
  unfolding c_str_def strlen_def c_str_def by (rule takeWhile_eq_take)

lemma strstr_match:
  assumes "strstr hay needle = Some k"
  shows "take (strlen needle) (drop k hay) = c_str needle"
proof -
  from assms have ff: "find_first (c_str needle) (c_str hay) = Some k"
    by (simp add: strstr_def)
  from find_first_bound[OF ff] have b: "k + strlen needle \<le> strlen hay"
    by (simp add: strlen_def)
  from find_first_match[OF ff] have "take (strlen needle) (drop k (take (strlen hay) hay)) = c_str needle"
    by (simp add: length_c_str flip: c_str_is_take)
  with b show ?thesis
    by (simp add: drop_take)
qed

lemma str_new_success:
  assumes "n \<le> 2 ^ 63"
  shows "\<exists>c. str_new (Some junk) n
             = Some (Some \<lparr>length_s = 0, capacity_s = c, data_s = (map junk [0..<c])[0 := NUL]\<rparr>)
           \<and> n \<le> c \<and> 16 \<le> c \<and> c \<le> 2 ^ 63"
proof -
  from assms have "max n 1 \<le> 2 ^ 63" by simp
  from round_capacity[OF this] obtain j where
    j: "str_round_capacity (max n 1) = Some (2 ^ j)" "4 \<le> j" "j \<le> 63" "max n 1 \<le> 2 ^ j"
    by blast
  have "(2::nat) ^ 4 \<le> 2 ^ j" using j(2) by (rule power_increasing) simp
  then have "16 \<le> (2::nat) ^ j" by simp
  moreover have "(2::nat) ^ j \<le> 2 ^ 63" by (rule pow2_le_63[OF j(3)])
  ultimately show ?thesis
    using j(1,4) by (intro exI[of _ "2 ^ j"]) (simp add: str_new_def malloc_def)
qed

lemma split_segment:
  assumes "str_new (Some junk) (sz_add k 1) = Some (Some r)" and "k < 2 ^ 63"
    and "start + k \<le> length (data_s s)"
  shows "str_inv (str_split_segment r s start k)"
    and "content (str_split_segment r s start k) = take k (drop start (data_s s))"
    and "length_s (str_split_segment r s start k) = k"
proof -
  have k1: "sz_add k 1 = k + 1" "sz_add k (Suc 0) = k + 1"
    using assms(2) by (simp_all add: sz_add_def)
  have "k + 1 \<le> 2 ^ 63" using assms(2) by simp
  from str_new_success[OF this, of junk] assms(1) obtain c where
    r: "r = \<lparr>length_s = 0, capacity_s = c, data_s = (map junk [0..<c])[0 := NUL]\<rparr>"
    and c: "k + 1 \<le> c" "c \<le> 2 ^ 63"
    by (auto simp: k1)
  let ?bytes = "take k (drop start (data_s s))"
  have lb: "length ?bytes = k" using assms(3) by simp
  have lm: "length (memcpy (data_s r) 0 ?bytes) = c"
    using c(1) lb by (simp add: length_memcpy r)
  show "str_inv (str_split_segment r s start k)"
    using c lm by (simp add: str_split_segment_def str_inv_def) (simp add: r)
  have "take k (memcpy (data_s r) 0 ?bytes) = ?bytes"
    using lb by (simp add: memcpy_def)
  then show "content (str_split_segment r s start k) = take k (drop start (data_s s))"
    using c(1) lm by (simp add: content_def str_split_segment_def)
  show "length_s (str_split_segment r s start k) = k"
    by (simp add: str_split_segment_def)
qed

lemma join_contents_Cons:
  "xs \<noteq> [] \<Longrightarrow> join_contents d (x # xs) = x @ d @ join_contents d xs"
  by (cases xs) simp_all

lemma drop_split3:
  "drop a xs = take b (drop a xs) @ take c (drop (a + b) xs) @ drop (a + b + c) xs"
proof -
  have "drop a xs = take b (drop a xs) @ drop b (drop a xs)"
    by (rule append_take_drop_id[symmetric])
  also have "drop b (drop a xs) = drop (a + b) xs"
    by (simp add: add.commute)
  also have "drop (a + b) xs = take c (drop (a + b) xs) @ drop c (drop (a + b) xs)"
    by (rule append_take_drop_id[symmetric])
  also have "drop c (drop (a + b) xs) = drop (a + b + c) xs"
    by (simp add: add.commute)
  finally show ?thesis .
qed

lemma take_drop_take: "a + b \<le> n \<Longrightarrow> take b (drop a (take n xs)) = take b (drop a xs)"
  by (simp add: drop_take)

lemma split_loop_correct:
  assumes inv: "str_inv s" and dlen: "0 < strlen d" and allocs: "\<forall>n. allocs n \<noteq> None"
  shows "start \<le> length_s s \<Longrightarrow>
    \<exists>segs. str_split_loop allocs s d (strlen d) start acc = Some (Some (acc @ segs))
          \<and> segs \<noteq> [] \<and> (\<forall>t\<in>set segs. str_inv t)
          \<and> join_contents (c_str d) (map content segs) = drop start (content s)"
proof (induction "length_s s - start" arbitrary: start acc rule: less_induct)
  case less
  note invD = str_invD[OF inv]
  from allocs obtain junk where junk: "allocs (length acc) = Some junk" by auto
  show ?case
  proof (cases "strstr (drop start (data_s s)) d")
    case None
    let ?len = "length_s s - start"
    have sub: "sz_sub (length_s s) start = ?len"
      using less.prems invD(5) by (simp add: sz_sub_id)
    have len63: "?len < 2 ^ 63" using invD(1,2) by simp
    then have "?len + 1 \<le> 2 ^ 63" by simp
    from str_new_success[OF this, of junk] obtain r where
      r: "str_new (Some junk) (?len + 1) = Some (Some r)" by blast
    have add: "sz_add ?len 1 = ?len + 1" using len63 by (simp add: sz_add_def)
    have r': "str_new (Some junk) (sz_add ?len 1) = Some (Some r)" using r add by simp
    have fits: "start + ?len \<le> length (data_s s)" using less.prems invD(1,3) by simp
    note seg = split_segment[OF r' len63 fits]
    have res: "str_split_loop allocs s d (strlen d) start acc
        = Some (Some (acc @ [str_split_segment r s start ?len]))"
      using None r' junk by (subst str_split_loop.simps) (simp add: sub)
    have "content (str_split_segment r s start ?len) = drop start (content s)"
      unfolding seg(2) by (simp add: content_def drop_take)
    with res seg(1) show ?thesis
      by (intro exI[of _ "[str_split_segment r s start ?len]"]) simp
  next
    case (Some k)
    from strstr_bound[OF Some] strlen_drop_le[OF inv less.prems] less.prems
    have bound: "start + k + strlen d \<le> length_s s" by simp
    have k63: "k < 2 ^ 63" using bound invD(1,2) by simp
    then have "k + 1 \<le> 2 ^ 63" by simp
    from str_new_success[OF this, of junk] obtain r where
      r: "str_new (Some junk) (k + 1) = Some (Some r)" by blast
    have add: "sz_add k 1 = k + 1" using k63 by (simp add: sz_add_def)
    have r': "str_new (Some junk) (sz_add k 1) = Some (Some r)" using r add by simp
    have fits: "start + k \<le> length (data_s s)" using bound invD(1,3) by simp
    note seg = split_segment[OF r' k63 fits]
    let ?seg = "str_split_segment r s start k"
    let ?start' = "start + k + strlen d"
    have "length_s s - ?start' < length_s s - start" using bound dlen by simp
    from less.hyps[OF this bound, of "acc @ [?seg]"] obtain segs where
      segs: "str_split_loop allocs s d (strlen d) ?start' (acc @ [?seg]) = Some (Some ((acc @ [?seg]) @ segs))"
      "segs \<noteq> []" "\<forall>t\<in>set segs. str_inv t"
      "join_contents (c_str d) (map content segs) = drop ?start' (content s)"
      by blast
    have res: "str_split_loop allocs s d (strlen d) start acc = Some (Some (acc @ ?seg # segs))"
      using Some r' junk segs(1) by (subst str_split_loop.simps) simp
    have delim: "take (strlen d) (drop (start + k) (content s)) = c_str d"
    proof -
      have "take (strlen d) (drop (start + k) (content s)) = take (strlen d) (drop (start + k) (data_s s))"
        unfolding content_def using bound by (intro take_drop_take) simp
      also have "\<dots> = take (strlen d) (drop k (drop start (data_s s)))"
        by (simp add: add.commute)
      also have "\<dots> = c_str d"
        by (rule strstr_match[OF Some])
      finally show ?thesis .
    qed
    have first: "content ?seg = take k (drop start (content s))"
    proof -
      have "take k (drop start (content s)) = take k (drop start (data_s s))"
        unfolding content_def using bound by (intro take_drop_take) simp
      with seg(2) show ?thesis by simp
    qed
    have "join_contents (c_str d) (map content (?seg # segs))
        = content ?seg @ c_str d @ join_contents (c_str d) (map content segs)"
      using segs(2) by (simp add: join_contents_Cons)
    also have "\<dots> = take k (drop start (content s)) @ take (strlen d) (drop (start + k) (content s))
        @ drop ?start' (content s)"
      by (simp only: first delim segs(4))
    also have "\<dots> = drop start (content s)"
      by (rule drop_split3[symmetric])
    finally have "join_contents (c_str d) (map content (?seg # segs)) = drop start (content s)" .
    with res seg(1) segs(3) show ?thesis
      by (intro exI[of _ "?seg # segs"]) simp
  qed
qed

lemma join_contents_tail: "join_contents d (x # xs) = x @ tail_join d xs"
  by (induction xs arbitrary: x) (simp_all add: tail_join_def)

lemma length_content: "str_inv t \<Longrightarrow> length (content t) = length_s t"
  by (simp add: content_def str_inv_def)

lemma join_loop1_sum:
  "i \<le> length segs \<Longrightarrow> tot + sum_list (map length_s (drop i segs)) < 2 ^ 64 \<Longrightarrow>
   str_join_loop1 (map Some segs) (length segs) i tot
     = Some (tot + sum_list (map length_s (drop i segs)))"
proof (induction "length segs - i" arbitrary: i tot)
  case 0
  then show ?case by (subst str_join_loop1.simps) simp
next
  case (Suc n)
  then have i: "i < length segs" by simp
  then have d: "drop i segs = segs ! i # drop (Suc i) segs"
    by (simp add: Cons_nth_drop_Suc)
  from Suc.prems(2) have "tot + length_s (segs ! i) < 2 ^ 64"
    by (simp add: d)
  then have add: "sz_add tot (length_s (segs ! i)) = tot + length_s (segs ! i)"
    by (simp add: sz_add_def)
  have "str_join_loop1 (map Some segs) (length segs) (Suc i) (tot + length_s (segs ! i))
      = Some (tot + length_s (segs ! i) + sum_list (map length_s (drop (Suc i) segs)))"
    using Suc.hyps(2) i Suc.prems(2) by (intro Suc.hyps(1)) (simp_all add: d)
  then show ?case
    using i by (subst str_join_loop1.simps) (simp add: add d)
qed

lemma take_memcpy_append:
  "dest + length b \<le> length mem \<Longrightarrow> take (dest + length b) (memcpy mem dest b) = take dest mem @ b"
  by (simp add: memcpy_def)

lemma join_loop2_fill:
  assumes "\<forall>t\<in>set segs. str_inv t"
  shows "i \<le> length segs \<Longrightarrow> 0 < i \<Longrightarrow>
    dest + length (tail_join (c_str d) (map content (drop i segs))) \<le> length mem \<Longrightarrow>
    \<exists>mem'. str_join_loop2 (map Some segs) (length segs) d (strlen d) i mem dest
            = (mem', dest + length (tail_join (c_str d) (map content (drop i segs))))
          \<and> length mem' = length mem
          \<and> take (dest + length (tail_join (c_str d) (map content (drop i segs)))) mem'
              = take dest mem @ tail_join (c_str d) (map content (drop i segs))"
proof (induction "length segs - i" arbitrary: i mem dest)
  case 0
  then show ?case by (subst str_join_loop2.simps) (simp add: tail_join_def)
next
  case (Suc n)
  then have i: "i < length segs" by simp
  let ?t = "segs ! i"
  let ?d = "c_str d"
  let ?rest = "tail_join ?d (map content (drop (Suc i) segs))"
  have dr: "drop i segs = ?t # drop (Suc i) segs"
    using i by (simp add: Cons_nth_drop_Suc)
  have tj: "tail_join ?d (map content (drop i segs)) = ?d @ content ?t @ ?rest"
    by (simp add: dr tail_join_def)
  have inv_t: "str_inv ?t" using assms i by simp
  have ct: "take (length_s ?t) (data_s ?t) = content ?t" "length (content ?t) = length_s ?t"
    using length_content[OF inv_t] by (simp_all add: content_def)
  have ld: "length ?d = strlen d" by (simp add: strlen_def)
  let ?mem1 = "memcpy (memcpy mem dest ?d) (dest + strlen d) (content ?t)"
  let ?dest1 = "dest + strlen d + length_s ?t"
  from Suc.prems(3) have fits: "?dest1 + length ?rest \<le> length mem"
    by (simp add: tj ld ct)
  have l1: "length (memcpy mem dest ?d) = length mem"
    using fits by (simp add: length_memcpy ld)
  have lmem1: "length ?mem1 = length mem"
    using fits l1 by (simp add: length_memcpy ct)
  have "take (dest + strlen d + length (content ?t)) ?mem1
      = take (dest + strlen d) (memcpy mem dest ?d) @ content ?t"
    using fits l1 by (intro take_memcpy_append) (simp add: ct)
  moreover have "take (dest + length ?d) (memcpy mem dest ?d) = take dest mem @ ?d"
    using fits by (intro take_memcpy_append) (simp add: ld)
  ultimately have prefix: "take ?dest1 ?mem1 = take dest mem @ ?d @ content ?t"
    by (simp add: ct ld)
  have "\<exists>mem'. str_join_loop2 (map Some segs) (length segs) d (strlen d) (Suc i) ?mem1 ?dest1
            = (mem', ?dest1 + length ?rest)
          \<and> length mem' = length ?mem1
          \<and> take (?dest1 + length ?rest) mem' = take ?dest1 ?mem1 @ ?rest"
    using Suc.hyps(2) i fits lmem1 by (intro Suc.hyps(1)) simp_all
  then obtain mem' where mem': "str_join_loop2 (map Some segs) (length segs) d (strlen d) (Suc i) ?mem1 ?dest1
            = (mem', ?dest1 + length ?rest)" "length mem' = length ?mem1"
          "take (?dest1 + length ?rest) mem' = take ?dest1 ?mem1 @ ?rest"
    by blast
  have step: "str_join_loop2 (map Some segs) (length segs) d (strlen d) i mem dest
      = str_join_loop2 (map Some segs) (length segs) d (strlen d) (Suc i) ?mem1 ?dest1"
    using i Suc.prems(2) by (subst str_join_loop2.simps) (simp add: take_strlen_split ct)
  have len: "dest + length (tail_join ?d (map content (drop i segs))) = ?dest1 + length ?rest"
    by (simp add: tj ld ct)
  show ?case
    unfolding len step using mem' lmem1 prefix by (intro exI[of _ mem']) (simp add: tj)
qed

lemma length_tail_join:
  "length (tail_join d xs) = sum_list (map length xs) + length xs * length d"
  by (induction xs) (simp_all add: tail_join_def)

lemma sum_list_length_content:
  "\<forall>t\<in>set segs. str_inv t \<Longrightarrow> sum_list (map length (map content segs)) = sum_list (map length_s segs)"
  by (induction segs) (simp_all add: length_content)

lemma length_join_contents:
  "xs \<noteq> [] \<Longrightarrow> length (join_contents d xs) = sum_list (map length xs) + (length xs - 1) * length d"
  by (cases xs) (simp_all add: join_contents_tail length_tail_join)

lemma str_join_correct:
  assumes "segs \<noteq> []" and inv: "\<forall>t\<in>set segs. str_inv t"
    and bound: "length (join_contents (c_str d) (map content segs)) < 2 ^ 63"
    and count: "length segs < 2 ^ 64"
  shows "\<exists>j. str_join (Some junk) (Some (map Some segs)) (length segs) (Some d) = Some (Some j)
           \<and> str_inv j \<and> content j = join_contents (c_str d) (map content segs)"
proof -
  from assms(1) obtain t0 rest where segs: "segs = t0 # rest" by (cases segs) auto
  let ?d = "c_str d"
  let ?tail = "tail_join ?d (map content rest)"
  let ?L = "length_s t0 + length ?tail"
  have inv0: "str_inv t0" and inv_rest: "\<forall>t\<in>set rest. str_inv t"
    using inv segs by simp_all
  have ct0: "take (length_s t0) (data_s t0) = content t0" "length (content t0) = length_s t0"
    using length_content[OF inv0] by (simp_all add: content_def)
  have jc: "join_contents ?d (map content segs) = content t0 @ ?tail"
    by (simp add: segs join_contents_tail)
  have L: "?L < 2 ^ 63"
    using bound by (simp add: jc ct0)
  have ld: "length ?d = strlen d" by (simp add: strlen_def)
  have sum: "sum_list (map length_s segs) + length rest * strlen d = ?L"
    using sum_list_length_content[OF inv_rest]
    by (simp add: segs length_tail_join ld)
  then have sum_lt: "sum_list (map length_s segs) < 2 ^ 64" "length rest * strlen d < 2 ^ 64"
    using L by simp_all
  have loop1: "str_join_loop1 (map Some segs) (length segs) 0 0 = Some (sum_list (map length_s segs))"
    using join_loop1_sum[of 0 segs 0] sum_lt(1) by simp
  have "sz_sub (length segs) 1 = length segs - 1"
    using assms(1) count by (intro sz_sub_id) (simp_all add: Suc_leI)
  then have cnt: "sz_sub (length segs) 1 = length rest" "sz_sub (length segs) (Suc 0) = length rest"
    by (simp_all add: segs)
  have mul: "sz_mul (length rest) (strlen d) = length rest * strlen d"
    using sum_lt(2) by (rule sz_mul_id)
  have "sz_add (sum_list (map length_s segs)) (length rest * strlen d)
      = sum_list (map length_s segs) + length rest * strlen d"
    using sum L by (intro sz_add_id) simp
  then have tot: "sz_add (sum_list (map length_s segs)) (sz_mul (sz_sub (length segs) 1) (strlen d)) = ?L"
    "sz_add (sum_list (map length_s segs)) (sz_mul (sz_sub (length segs) (Suc 0)) (strlen d)) = ?L"
    using sum by (simp_all add: cnt mul)
  have "?L + 1 \<le> 2 ^ 63" using L by simp
  from str_new_success[OF this, of junk] obtain c where
    r: "str_new (Some junk) (?L + 1)
        = Some (Some \<lparr>length_s = 0, capacity_s = c, data_s = (map junk [0..<c])[0 := NUL]\<rparr>)"
    and c: "?L + 1 \<le> c" "c \<le> 2 ^ 63"
    by blast
  let ?r = "\<lparr>length_s = 0, capacity_s = c, data_s = (map junk [0..<c])[0 := NUL]\<rparr>"
  have add1: "sz_add ?L 1 = ?L + 1" "sz_add ?L (Suc 0) = ?L + 1"
    using L by (simp_all add: sz_add_def)
  let ?mem1 = "memcpy (data_s ?r) 0 (content t0)"
  have lmem1: "length ?mem1 = c"
    using c(1) by (simp add: length_memcpy ct0)
  have "\<exists>mem'. str_join_loop2 (map Some segs) (length segs) d (strlen d) 1 ?mem1 (length_s t0)
            = (mem', length_s t0 + length (tail_join ?d (map content (drop 1 segs))))
          \<and> length mem' = length ?mem1
          \<and> take (length_s t0 + length (tail_join ?d (map content (drop 1 segs)))) mem'
              = take (length_s t0) ?mem1 @ tail_join ?d (map content (drop 1 segs))"
    using c(1) lmem1 by (intro join_loop2_fill[OF inv]) (simp_all add: segs)
  then obtain mem' where mem':
    "str_join_loop2 (map Some segs) (length segs) d (strlen d) 1 ?mem1 (length_s t0) = (mem', ?L)"
    "length mem' = c" "take ?L mem' = take (length_s t0) ?mem1 @ ?tail"
    using lmem1 by (auto simp: segs)
  have first: "str_join_loop2 (map Some segs) (length segs) d (strlen d) 0 (data_s ?r) 0
      = str_join_loop2 (map Some segs) (length segs) d (strlen d) 1 ?mem1 (length_s t0)"
    by (subst str_join_loop2.simps) (simp add: segs ct0)
  have "take (0 + length (content t0)) ?mem1 = take 0 (data_s ?r) @ content t0"
    using c(1) by (intro take_memcpy_append) (simp add: ct0)
  then have head: "take (length_s t0) ?mem1 = content t0"
    by (simp add: ct0)
  let ?j = "?r\<lparr>data_s := mem'[?L := NUL], length_s := ?L\<rparr>"
  have r': "str_new (Some junk) (Suc ?L) = Some (Some ?r)"
    using r by simp
  have loop2: "str_join_loop2 (map Some segs) (length segs) d (strlen d) 0
      ((map junk [0..<c])[0 := NUL]) 0 = (mem', ?L)"
    using first mem'(1) by simp
  have res: "str_join (Some junk) (Some (map Some segs)) (length segs) (Some d) = Some (Some ?j)"
    using assms(1) by (simp add: str_join_def Let_def loop1 tot add1 r' loop2)
  have "str_inv ?j"
    using c mem'(2) by (simp add: str_inv_def)
  moreover have "content ?j = join_contents ?d (map content segs)"
    using mem'(3) head by (simp add: content_def jc)
  ultimately show ?thesis
    using res by blast
qed

text \<open>
  Claim C4. For every buffer \<open>s\<close> that satisfies the invariant and every delimiter \<open>d\<close>
  that is not the empty string, when the allocator grants every request: \<open>str_split\<close>
  returns a list of segments that is never empty (the last segment is always there), and
  \<open>str_join\<close> of these segments with \<open>d\<close> returns a buffer with the length and the
  content of \<open>s\<close>, terminated at its length.
\<close>

theorem split_then_join_reproduces_the_buffer:
  assumes "str_inv s" and "0 < strlen d"
    and "arr \<noteq> None" and "\<forall>n. allocs n \<noteq> None" and "a \<noteq> None"
  shows "\<exists>segs j. str_split arr allocs (Some s) (Some d) = Some (Some segs) \<and> segs \<noteq> []
           \<and> str_join a (Some (map Some segs)) (length segs) (Some d) = Some (Some j)
           \<and> length_s j = length_s s \<and> content j = content s
           \<and> data_s j ! length_s j = NUL"
proof -
  note invD = str_invD[OF assms(1)]
  from split_loop_correct[OF assms(1,2,4), of 0 "[]"] obtain segs where
    segs: "str_split_loop allocs s d (strlen d) 0 [] = Some (Some segs)" "segs \<noteq> []"
      "\<forall>t\<in>set segs. str_inv t" "join_contents (c_str d) (map content segs) = content s"
    by auto
  from assms(3) have split: "str_split arr allocs (Some s) (Some d) = Some (Some segs)"
    using assms(2) segs(1) by (auto simp: str_split_def Let_def malloc_def)
  from assms(5) obtain junk where a: "a = Some junk" by auto
  have jl: "length (join_contents (c_str d) (map content segs)) < 2 ^ 63"
    using invD(1,2,3) by (simp add: segs(4) content_def)
  have "length segs - 1 \<le> (length segs - 1) * strlen d"
    using assms(2) by (cases "strlen d") simp_all
  also have "\<dots> \<le> length (join_contents (c_str d) (map content segs))"
    using segs(2) by (simp add: length_join_contents strlen_def)
  finally have "length segs < 2 ^ 64"
    using jl by simp
  from str_join_correct[OF segs(2,3) jl this, of junk] obtain j where
    j: "str_join a (Some (map Some segs)) (length segs) (Some d) = Some (Some j)"
      "str_inv j" "content j = content s"
    by (auto simp: a segs(4))
  have "length (content j) = length (content s)" using j(3) by simp
  then have "length_s j = length_s s"
    using length_content[OF j(2)] length_content[OF assms(1)] by simp
  with split segs(2) j show ?thesis
    by (intro exI[of _ segs] exI[of _ j]) (simp add: str_inv_def)
qed

theorem split_then_join_reproduces_the_buffer_witness:
  "str_inv \<lparr>length_s = 3, capacity_s = 16, data_s = ''a,b'' @ NUL # ''????????????''\<rparr>
   \<and> 0 < strlen '',''
   \<and> (\<exists>segs j. str_split fresh (\<lambda>_. fresh)
                    (Some \<lparr>length_s = 3, capacity_s = 16, data_s = ''a,b'' @ NUL # ''????????????''\<rparr>)
                    (Some '','') = Some (Some segs)
         \<and> segs \<noteq> []
         \<and> str_join fresh (Some (map Some segs)) (length segs) (Some '','') = Some (Some j)
         \<and> length_s j = 3 \<and> content j = ''a,b'' \<and> data_s j ! length_s j = NUL)"
proof -
  have inv: "str_inv \<lparr>length_s = 3, capacity_s = 16, data_s = ''a,b'' @ NUL # ''????????????''\<rparr>"
    by (simp add: str_inv_def)
  have delim: "0 < strlen '',''"
    by (simp add: strlen_def c_str_def)
  have allocs: "fresh \<noteq> None" "\<forall>n. (\<lambda>_. fresh) n \<noteq> None"
    by (simp_all add: fresh_def)
  from split_then_join_reproduces_the_buffer[OF inv delim allocs(1,2,1)] inv delim
  show ?thesis
    by (simp add: content_def)
qed

section \<open>Replacement\<close>

text \<open>
  \<open>str_replace\<close> and \<open>str_replace_all\<close> have the same body, so each loop of the one
  returns what the loop of the other returns, and the two functions agree on every
  argument, null handles, failing allocations and calls that never return included.
\<close>

lemma replace_loop1_le:
  "str_replace_loop1 mem old old_len p count = Some y
   \<Longrightarrow> str_replace_all_loop1 mem old old_len p count = Some y"
  by (rule str_replace_loop1.raw_induct
         [where P = "\<lambda>mem old old_len p count y.
                       str_replace_all_loop1 mem old old_len p count = Some y"])
     (subst str_replace_all_loop1.simps, auto split: option.splits)

lemma replace_loop1_ge:
  "str_replace_all_loop1 mem old old_len p count = Some y
   \<Longrightarrow> str_replace_loop1 mem old old_len p count = Some y"
  by (rule str_replace_all_loop1.raw_induct
         [where P = "\<lambda>mem old old_len p count y.
                       str_replace_loop1 mem old old_len p count = Some y"])
     (subst str_replace_loop1.simps, auto split: option.splits)

lemma replace_loop1_eq:
  "str_replace_all_loop1 mem old old_len p count = str_replace_loop1 mem old old_len p count"
proof (cases "str_replace_loop1 mem old old_len p count")
  case None
  then show ?thesis
    using replace_loop1_ge[of mem old old_len p count]
    by (cases "str_replace_all_loop1 mem old old_len p count") auto
next
  case (Some y)
  then show ?thesis by (simp add: replace_loop1_le)
qed

lemma replace_loop2_le:
  "str_replace_loop2 mem old old_len new new_len p dest_mem dest = Some y
   \<Longrightarrow> str_replace_all_loop2 mem old old_len new new_len p dest_mem dest = Some y"
  by (rule str_replace_loop2.raw_induct
         [where P = "\<lambda>mem old old_len new new_len p dest_mem dest y.
                       str_replace_all_loop2 mem old old_len new new_len p dest_mem dest = Some y"])
     (subst str_replace_all_loop2.simps, auto split: if_splits)

lemma replace_loop2_ge:
  "str_replace_all_loop2 mem old old_len new new_len p dest_mem dest = Some y
   \<Longrightarrow> str_replace_loop2 mem old old_len new new_len p dest_mem dest = Some y"
  by (rule str_replace_all_loop2.raw_induct
         [where P = "\<lambda>mem old old_len new new_len p dest_mem dest y.
                       str_replace_loop2 mem old old_len new new_len p dest_mem dest = Some y"])
     (subst str_replace_loop2.simps, auto split: if_splits)

lemma replace_loop2_eq:
  "str_replace_all_loop2 mem old old_len new new_len p dest_mem dest
   = str_replace_loop2 mem old old_len new new_len p dest_mem dest"
proof (cases "str_replace_loop2 mem old old_len new new_len p dest_mem dest")
  case None
  then show ?thesis
    using replace_loop2_ge[of mem old old_len new new_len p dest_mem dest]
    by (cases "str_replace_all_loop2 mem old old_len new new_len p dest_mem dest") auto
next
  case (Some y)
  then show ?thesis by (simp add: replace_loop2_le)
qed

lemma str_replace_all_eq_str_replace: "str_replace_all a s old new = str_replace a s old new"
  unfolding str_replace_all_def str_replace_def replace_loop1_eq replace_loop2_eq ..

text \<open>
  The count of the first loop and the copy of the second, for a buffer whose content is a
  C string (no zero byte before the length) and a string \<open>old\<close> that is not empty.
\<close>

lemma find_first_occurrences:
  assumes "needle \<noteq> []"
  shows "case find_first needle hay of
           None \<Rightarrow> occurrences needle hay = 0
         | Some k \<Rightarrow> occurrences needle hay
                      = 1 + occurrences needle (drop (k + length needle) hay)"
proof (induction hay)
  case Nil
  show ?case using assms by (simp add: occurrences.simps)
next
  case (Cons h t)
  show ?case
  proof (cases "take (length needle) (h # t) = needle")
    case True
    then show ?thesis using assms by (simp add: occurrences.simps[of needle "h # t"])
  next
    case False
    then have occ: "occurrences needle (h # t) = occurrences needle t"
      using assms by (simp add: occurrences.simps[of needle "h # t"])
    show ?thesis using Cons.IH False by (simp add: occ split: option.splits)
  qed
qed

lemma length_replace_every:
  "length (replace_every old new hay) + occurrences old hay * length old
   = length hay + occurrences old hay * length new"
proof (induction old new hay rule: replace_every.induct)
  case (1 old new hay)
  show ?case
  proof (cases "old = [] \<or> hay = []")
    case True
    then show ?thesis
      by (simp add: replace_every.simps[of old new hay] occurrences.simps[of old hay])
  next
    case stop: False
    show ?thesis
    proof (cases "take (length old) hay = old")
      case True
      have le: "length old \<le> length hay"
        using arg_cong[OF True, of length] by simp
      from 1(1)[OF stop True] stop True le show ?thesis
        by (simp add: replace_every.simps[of old new hay] occurrences.simps[of old hay])
    next
      case False
      from stop have "length (tl hay) + 1 = length hay" by (cases hay) simp_all
      with 1(2)[OF stop False] stop False show ?thesis
        by (simp add: replace_every.simps[of old new hay] occurrences.simps[of old hay])
    qed
  qed
qed

lemma c_str_Cons: "c_str (x # xs) = (if x = NUL then [] else x # c_str xs)"
  by (simp add: c_str_def)

lemma c_str_Nil: "c_str [] = []"
  by (simp add: c_str_def)

lemma strlen_Cons: "strlen (x # xs) = (if x = NUL then 0 else Suc (strlen xs))"
  by (simp add: strlen_def c_str_Cons)

lemma strlen_Nil: "strlen [] = 0"
  by (simp add: strlen_def c_str_Nil)

lemma of_char_diff: "int (of_char (x :: char)) - int (of_char y) = 0 \<longleftrightarrow> x = y"
  by simp

lemma of_char_NUL: "(of_char y :: nat) = 0 \<longleftrightarrow> y = NUL"
  using of_char_eq_iff[of y NUL, where 'a = nat] by simp

lemma strncmp_zero:
  "strncmp a b (strlen b) = 0 \<longleftrightarrow> take (strlen b) (c_str a) = c_str b"
proof (induction b arbitrary: a)
  case Nil
  show ?case by (simp add: strlen_Nil c_str_Nil)
next
  case (Cons y ys)
  show ?case
  proof (cases "y = NUL")
    case True
    then show ?thesis by (simp add: strlen_Cons c_str_Cons)
  next
    case False
    show ?thesis
    proof (cases a)
      case Nil
      with False show ?thesis by (simp add: strlen_Cons c_str_Cons c_str_Nil of_char_NUL)
    next
      case (Cons x xs)
      with False Cons.IH[of xs] show ?thesis
        by (auto simp: strlen_Cons c_str_Cons)
    qed
  qed
qed

lemma c_str_append_NUL: "NUL \<notin> set xs \<Longrightarrow> c_str (xs @ NUL # ys) = xs"
  by (induction xs) (auto simp: c_str_Cons)

lemma c_str_drop_content:
  assumes "str_inv s" and "NUL \<notin> set (content s)" and "p \<le> length_s s"
  shows "c_str (drop p (data_s s)) = drop p (content s)"
proof -
  note inv = str_invD[OF assms(1)]
  have c: "data_s s = content s @ NUL # drop (Suc (length_s s)) (data_s s)"
    using id_take_nth_drop[OF inv(7)] inv(4) by (simp add: content_def)
  have "drop p (data_s s) = drop p (content s) @ NUL # drop (Suc (length_s s)) (data_s s)"
    using assms(3) inv(7) by (subst c) (simp add: content_def)
  moreover have "NUL \<notin> set (drop p (content s))"
    using assms(2) by (meson in_set_dropD)
  ultimately show ?thesis by (simp add: c_str_append_NUL)
qed

lemma replace_loop1_counts:
  assumes inv: "str_inv s" and nz: "NUL \<notin> set (content s)" and ol: "0 < strlen old"
  shows "p \<le> length_s s \<Longrightarrow>
         count + occurrences (c_str old) (drop p (content s)) < 2 ^ 64 \<Longrightarrow>
         str_replace_loop1 (data_s s) old (strlen old) p count
         = Some (count + occurrences (c_str old) (drop p (content s)))"
proof (induction "length_s s - p" arbitrary: p count rule: less_induct)
  case less
  have ne: "c_str old \<noteq> []" using ol by (auto simp: strlen_def)
  have ss: "strstr (drop p (data_s s)) old = find_first (c_str old) (drop p (content s))"
    by (simp add: strstr_def c_str_drop_content[OF inv nz less.prems(1)])
  show ?case
  proof (cases "find_first (c_str old) (drop p (content s))")
    case None
    with find_first_occurrences[OF ne, of "drop p (content s)"]
    have "occurrences (c_str old) (drop p (content s)) = 0" by simp
    then show ?thesis
      by (subst str_replace_loop1.simps) (simp add: ss None)
  next
    case (Some k)
    with find_first_occurrences[OF ne, of "drop p (content s)"]
    have occ: "occurrences (c_str old) (drop p (content s))
               = 1 + occurrences (c_str old) (drop (p + k + strlen old) (content s))"
      by (simp add: length_c_str add.commute add.left_commute)
    from find_first_bound[OF Some] have b: "p + k + strlen old \<le> length_s s"
      using less.prems(1) by (simp add: length_c_str length_content[OF inv])
    have c1: "sz_add count 1 = count + 1"
      using less.prems(2) occ by (intro sz_add_id) simp
    have "str_replace_loop1 (data_s s) old (strlen old) (p + k + strlen old) (count + 1)
          = Some (count + 1 + occurrences (c_str old) (drop (p + k + strlen old) (content s)))"
      using b ol less.prems occ by (intro less.hyps) simp_all
    then show ?thesis
      using c1 by (subst str_replace_loop1.simps) (simp add: ss Some occ)
  qed
qed

lemma replace_loop2_copies:
  assumes inv: "str_inv s" and nz: "NUL \<notin> set (content s)" and ol: "0 < strlen old"
  shows "p \<le> length_s s \<Longrightarrow>
         dest + length (replace_every (c_str old) (c_str new) (drop p (content s)))
           \<le> length dest_mem \<Longrightarrow>
         \<exists>dm. str_replace_loop2 (data_s s) old (strlen old) new (strlen new) p dest_mem dest
                = Some (dm, dest + length (replace_every (c_str old) (c_str new)
                                            (drop p (content s))))
            \<and> length dm = length dest_mem
            \<and> take (dest + length (replace_every (c_str old) (c_str new) (drop p (content s)))) dm
              = take dest dest_mem @ replace_every (c_str old) (c_str new) (drop p (content s))"
proof (induction "length_s s - p" arbitrary: p dest_mem dest rule: less_induct)
  case less
  note invD = str_invD[OF inv]
  have ne: "c_str old \<noteq> []" using ol by (auto simp: strlen_def)
  have lc: "length (content s) = length_s s" by (rule length_content[OF inv])
  show ?case
  proof (cases "p = length_s s")
    case True
    then have R: "replace_every (c_str old) (c_str new) (drop p (content s)) = []"
      by (simp add: lc replace_every.simps)
    show ?thesis
      by (subst str_replace_loop2.simps) (simp add: R[unfolded True] True invD(4))
  next
    case False
    with less.prems(1) have p: "p < length_s s" by simp
    then have "data_s s ! p = content s ! p" by (simp add: content_def)
    moreover have "content s ! p \<in> set (content s)" using p lc by simp
    ultimately have nonzero: "data_s s ! p \<noteq> NUL" using nz by metis
    have hay: "drop p (content s) \<noteq> []" using p lc by simp
    have cmp: "strncmp (drop p (data_s s)) old (strlen old) = 0
               \<longleftrightarrow> take (length (c_str old)) (drop p (content s)) = c_str old"
      by (simp add: strncmp_zero c_str_drop_content[OF inv nz less.prems(1)] length_c_str)
    show ?thesis
    proof (cases "take (length (c_str old)) (drop p (content s)) = c_str old")
      case True
      have R: "replace_every (c_str old) (c_str new) (drop p (content s))
               = c_str new @ replace_every (c_str old) (c_str new)
                               (drop (p + strlen old) (content s))"
        using ne hay True
        by (subst replace_every.simps) (simp add: length_c_str add.commute)
      have "length (c_str old) \<le> length (drop p (content s))"
        using arg_cong[OF True, of length] by simp
      then have b: "p + strlen old \<le> length_s s"
        using p by (simp add: lc length_c_str)
      have room: "dest + length (c_str new) \<le> length dest_mem"
        using less.prems(2) by (simp add: R)
      have lm: "length (memcpy dest_mem dest (c_str new)) = length dest_mem"
        by (rule length_memcpy[OF room])
      have "\<exists>dm. str_replace_loop2 (data_s s) old (strlen old) new (strlen new)
                    (p + strlen old) (memcpy dest_mem dest (c_str new)) (dest + strlen new)
                  = Some (dm, dest + strlen new
                              + length (replace_every (c_str old) (c_str new)
                                          (drop (p + strlen old) (content s))))
              \<and> length dm = length (memcpy dest_mem dest (c_str new))
              \<and> take (dest + strlen new
                       + length (replace_every (c_str old) (c_str new)
                                   (drop (p + strlen old) (content s)))) dm
                = take (dest + strlen new) (memcpy dest_mem dest (c_str new))
                  @ replace_every (c_str old) (c_str new) (drop (p + strlen old) (content s))"
        using b ol p less.prems(2) by (intro less.hyps) (simp_all add: lm R length_c_str)
      then obtain dm where dm:
        "str_replace_loop2 (data_s s) old (strlen old) new (strlen new)
            (p + strlen old) (memcpy dest_mem dest (c_str new)) (dest + strlen new)
         = Some (dm, dest + strlen new
                     + length (replace_every (c_str old) (c_str new)
                                 (drop (p + strlen old) (content s))))"
        "length dm = length dest_mem"
        "take (dest + strlen new
               + length (replace_every (c_str old) (c_str new)
                           (drop (p + strlen old) (content s)))) dm
         = take (dest + strlen new) (memcpy dest_mem dest (c_str new))
           @ replace_every (c_str old) (c_str new) (drop (p + strlen old) (content s))"
        using lm by auto
      have tk: "take (dest + strlen new) (memcpy dest_mem dest (c_str new))
                = take dest dest_mem @ c_str new"
        using take_memcpy_append[OF room] by (simp add: length_c_str)
      show ?thesis
        apply (subst str_replace_loop2.simps)
        apply (simp only: nonzero cmp True take_strlen if_True simp_thms)
        apply (rule exI[of _ dm])
        apply (insert dm tk)
        apply (simp add: R length_c_str add.assoc)
        done
    next
      case nomatch: False
      from hay obtain h t where ht: "drop p (content s) = h # t" by (cases "drop p (content s)") auto
      have h: "h = data_s s ! p"
        using ht p lc by (metis Cons_nth_drop_Suc content_def list.inject nth_take)
      have t: "t = drop (p + 1) (content s)"
        using ht p lc by (metis Cons_nth_drop_Suc Suc_eq_plus1 list.inject)
      have R: "replace_every (c_str old) (c_str new) (drop p (content s))
               = data_s s ! p # replace_every (c_str old) (c_str new) (drop (p + 1) (content s))"
        using ne nomatch
        by (subst replace_every.simps) (simp add: ht h t)
      have room: "dest < length dest_mem"
        using less.prems(2) by (simp add: R)
      have "\<exists>dm. str_replace_loop2 (data_s s) old (strlen old) new (strlen new)
                    (p + 1) (dest_mem[dest := data_s s ! p]) (dest + 1)
                  = Some (dm, dest + 1
                              + length (replace_every (c_str old) (c_str new)
                                          (drop (p + 1) (content s))))
              \<and> length dm = length (dest_mem[dest := data_s s ! p])
              \<and> take (dest + 1
                       + length (replace_every (c_str old) (c_str new)
                                   (drop (p + 1) (content s)))) dm
                = take (dest + 1) (dest_mem[dest := data_s s ! p])
                  @ replace_every (c_str old) (c_str new) (drop (p + 1) (content s))"
        using p less.prems(2) by (intro less.hyps) (simp_all add: R)
      then obtain dm where dm:
        "str_replace_loop2 (data_s s) old (strlen old) new (strlen new)
            (p + 1) (dest_mem[dest := data_s s ! p]) (dest + 1)
         = Some (dm, dest + 1
                     + length (replace_every (c_str old) (c_str new)
                                 (drop (p + 1) (content s))))"
        "length dm = length dest_mem"
        "take (dest + 1
               + length (replace_every (c_str old) (c_str new)
                           (drop (p + 1) (content s)))) dm
         = take (dest + 1) (dest_mem[dest := data_s s ! p])
           @ replace_every (c_str old) (c_str new) (drop (p + 1) (content s))"
        by auto
      have tk: "take (dest + 1) (dest_mem[dest := data_s s ! p])
                = take dest dest_mem @ [data_s s ! p]"
        using room by (simp add: take_Suc_conv_app_nth)
      show ?thesis
        apply (subst str_replace_loop2.simps)
        apply (simp only: nonzero cmp nomatch if_True if_False simp_thms)
        apply (rule exI[of _ dm])
        apply (insert dm tk)
        apply (simp add: R add.assoc)
        done
    qed
  qed
qed

text \<open>
  The length of the result is computed in \<^verbatim>\<open>size_t\<close> as
  \<^verbatim>\<open>s->length + count * (new_len - old_len)\<close>; the difference wraps around when \<open>new\<close>
  is shorter than \<open>old\<close>, and the sum wraps back.
\<close>

lemma occurrences_le: "occurrences old hay \<le> length hay"
proof (induction old hay rule: occurrences.induct)
  case (1 old hay)
  show ?case
  proof (cases "old = [] \<or> hay = []")
    case True
    then show ?thesis by (simp add: occurrences.simps[of old hay])
  next
    case stop: False
    show ?thesis
    proof (cases "take (length old) hay = old")
      case True
      have le: "length old \<le> length hay"
        using arg_cong[OF True, of length] by simp
      from stop have pos: "0 < length old" by simp
      have eq: "occurrences old hay = 1 + occurrences old (drop (length old) hay)"
        using stop True by (subst occurrences.simps) simp
      from 1(1)[OF stop True]
      have "occurrences old (drop (length old) hay) \<le> length hay - length old" by simp
      with le pos show ?thesis unfolding eq by arith
    next
      case False
      with 1(2)[OF stop False] stop show ?thesis
        by (simp add: occurrences.simps[of old hay] le_diff_conv)
    qed
  qed
qed

lemma int_sz_sub: "int (sz_sub a b) = (int a - int b) mod 2 ^ 64"
proof -
  define M :: nat where "M = 2 ^ 64"
  have M: "0 < M" by (simp add: M_def)
  have "b mod M \<le> a mod M + M"
    using mod_less_divisor[OF M, of b] by simp
  then have "int (a mod M + M - b mod M) = int (a mod M) + int M - int (b mod M)"
    by (simp add: of_nat_diff)
  then have "int (sz_sub a b) = (int a mod int M + int M - int b mod int M) mod int M"
    unfolding sz_sub_def M_def[symmetric] by (simp add: of_nat_mod)
  also have "\<dots> = ((int a mod int M - int b mod int M) + int M) mod int M"
    by (simp add: algebra_simps)
  also have "\<dots> = (int a mod int M - int b mod int M) mod int M"
    by (rule mod_add_self2)
  also have "\<dots> = (int a - int b) mod int M"
    by (rule mod_diff_eq)
  finally show ?thesis by (simp add: M_def)
qed

lemma replace_result_len:
  assumes "r + c * old_len = l + c * new_len" and "r < 2 ^ 64"
  shows "sz_add l (sz_mul c (sz_sub new_len old_len)) = r"
proof -
  define M :: int where "M = 2 ^ 64"
  have sub: "int (sz_sub new_len old_len) = (int new_len - int old_len) mod M"
    by (simp add: int_sz_sub M_def)
  have "int (sz_mul c (sz_sub new_len old_len)) = (int c * int (sz_sub new_len old_len)) mod M"
    by (simp add: sz_mul_def of_nat_mod M_def)
  also have "\<dots> = (int c * (int new_len - int old_len)) mod M"
    unfolding sub by (simp add: mod_simps)
  finally have mul: "int (sz_mul c (sz_sub new_len old_len))
                     = (int c * (int new_len - int old_len)) mod M" .
  have "int (sz_add l (sz_mul c (sz_sub new_len old_len)))
        = (int l + int (sz_mul c (sz_sub new_len old_len))) mod M"
    by (simp add: sz_add_def of_nat_mod M_def)
  also have "\<dots> = (int l + int c * (int new_len - int old_len)) mod M"
    unfolding mul by (simp add: mod_simps)
  also have "int l + int c * (int new_len - int old_len) = int r"
  proof -
    from assms(1) have "int (r + c * old_len) = int (l + c * new_len)" by simp
    then show ?thesis by (simp add: algebra_simps)
  qed
  also have "int r mod M = int r"
    using assms(2) by (simp add: M_def)
  finally show ?thesis by simp
qed

lemma str_replace_correct:
  assumes inv: "str_inv s" and nz: "NUL \<notin> set (content s)" and ol: "0 < strlen old"
    and fits: "length (replace_every (c_str old) (c_str new) (content s)) < 2 ^ 63"
  shows "\<exists>r. str_replace (Some junk) (Some s) (Some old) (Some new) = Some (Some r)
           \<and> str_inv r
           \<and> content r = replace_every (c_str old) (c_str new) (content s)"
proof -
  note invD = str_invD[OF inv]
  define R where "R = replace_every (c_str old) (c_str new) (content s)"
  define occ where "occ = occurrences (c_str old) (content s)"
  have lc: "length (content s) = length_s s" by (rule length_content[OF inv])
  have "occ \<le> length_s s"
    unfolding occ_def using occurrences_le[of "c_str old" "content s"] by (simp add: lc)
  then have occ64: "0 + occurrences (c_str old) (drop 0 (content s)) < 2 ^ 64"
    using invD(5) by (simp add: occ_def)
  have count: "str_replace_loop1 (data_s s) old (strlen old) 0 0 = Some occ"
    using replace_loop1_counts[OF inv nz ol _ occ64] by (simp add: occ_def)
  have "length R + occ * strlen old = length_s s + occ * strlen new"
    unfolding R_def occ_def
    using length_replace_every[of "c_str old" "c_str new" "content s"]
    by (simp add: length_c_str lc)
  moreover have R63: "length R < 2 ^ 63" using fits by (simp add: R_def)
  then have R64: "length R < 2 ^ 64" by simp
  ultimately have len: "sz_add (length_s s) (sz_mul occ (sz_sub (strlen new) (strlen old)))
                        = length R"
    by (intro replace_result_len)
  have add1: "sz_add (length R) 1 = length R + 1"
    using R63 by (intro sz_add_id) simp
  have "length R + 1 \<le> 2 ^ 63" using R63 by simp
  from str_new_success[OF this, of junk] obtain c where
    new: "str_new (Some junk) (length R + 1)
          = Some (Some \<lparr>length_s = 0, capacity_s = c, data_s = (map junk [0..<c])[0 := NUL]\<rparr>)"
    and c: "length R + 1 \<le> c" "c \<le> 2 ^ 63"
    by auto
  define blk where "blk = (map junk [0..<c])[0 := NUL]"
  have lblk: "length blk = c" by (simp add: blk_def)
  have room: "0 + length (replace_every (c_str old) (c_str new) (drop 0 (content s)))
              \<le> length blk"
    using c(1) by (simp add: lblk R_def)
  from replace_loop2_copies[OF inv nz ol _ room] obtain dm where
    dm: "str_replace_loop2 (data_s s) old (strlen old) new (strlen new) 0 blk 0
         = Some (dm, length R)"
      "length dm = c" "take (length R) dm = R"
    by (auto simp: R_def lblk)
  define r where "r = \<lparr>length_s = length R, capacity_s = c, data_s = dm[length R := NUL]\<rparr>"
  have res: "str_replace (Some junk) (Some s) (Some old) (Some new) = Some (Some r)"
    using add1 new dm(1)
    by (simp add: str_replace_def Let_def count len r_def flip: blk_def)
  have "str_inv r"
    using c dm(2) by (simp add: str_inv_def r_def)
  moreover have "content r = R"
    by (simp add: content_def r_def dm(3))
  ultimately show ?thesis
    using res by (auto simp: R_def)
qed

text \<open>
  On a buffer whose content is a C string both functions do what their description
  promises of \<open>str_replace_all\<close>. For every buffer \<open>s\<close> that satisfies the invariant and
  whose content holds no zero byte, every string \<open>old\<close> that is not empty and every string
  \<open>new\<close>, when the result is below \<open>2 ^ 63\<close> bytes and the allocation succeeds:
  \<open>str_replace\<close> and \<open>str_replace_all\<close> return the same new buffer, its content is the
  content of \<open>s\<close> with every occurrence of \<open>old\<close>, found from left to right without
  overlap, replaced by \<open>new\<close>, its length is
  \<open>len(s) + occurrences * (len(new) - len(old))\<close> and it is terminated at its length.
\<close>

lemma replace_and_replace_all_substitute_every_occurrence:
  assumes "str_inv s" and "NUL \<notin> set (content s)" and "0 < strlen old"
    and "length (replace_every (c_str old) (c_str new) (content s)) < 2 ^ 63"
    and "a \<noteq> None"
  shows "\<exists>r. str_replace a (Some s) (Some old) (Some new) = Some (Some r)
           \<and> str_replace_all a (Some s) (Some old) (Some new) = Some (Some r)
           \<and> content r = replace_every (c_str old) (c_str new) (content s)
           \<and> int (length_s r) = int (length_s s)
                + int (occurrences (c_str old) (content s)) * (int (strlen new) - int (strlen old))
           \<and> data_s r ! length_s r = NUL"
proof -
  from assms(5) obtain junk where a: "a = Some junk" by auto
  from str_replace_correct[OF assms(1-4), of junk] obtain r where
    r: "str_replace a (Some s) (Some old) (Some new) = Some (Some r)" "str_inv r"
      "content r = replace_every (c_str old) (c_str new) (content s)"
    by (auto simp: a)
  have "length (content r) + occurrences (c_str old) (content s) * length (c_str old)
        = length (content s) + occurrences (c_str old) (content s) * length (c_str new)"
    unfolding r(3) by (rule length_replace_every)
  then have "int (length_s r + occurrences (c_str old) (content s) * strlen old)
        = int (length_s s + occurrences (c_str old) (content s) * strlen new)"
    by (simp add: length_content[OF r(2)] length_content[OF assms(1)] length_c_str)
  then have "int (length_s r) = int (length_s s)
                + int (occurrences (c_str old) (content s)) * (int (strlen new) - int (strlen old))"
    by (simp add: algebra_simps)
  moreover have "data_s r ! length_s r = NUL"
    using r(2) by (simp add: str_inv_def)
  ultimately show ?thesis
    using r(1,3) by (intro exI[of _ r]) (simp add: str_replace_all_eq_str_replace)
qed

lemma replace_and_replace_all_substitute_every_occurrence_witness:
  "str_inv \<lparr>length_s = 5, capacity_s = 16, data_s = ''a-b-a'' @ NUL # ''??????????''\<rparr>
   \<and> NUL \<notin> set (content \<lparr>length_s = 5, capacity_s = 16,
                             data_s = ''a-b-a'' @ NUL # ''??????????''\<rparr>)
   \<and> 0 < strlen ''a''
   \<and> (\<exists>r. str_replace fresh
               (Some \<lparr>length_s = 5, capacity_s = 16, data_s = ''a-b-a'' @ NUL # ''??????????''\<rparr>)
               (Some ''a'') (Some ''xy'') = Some (Some r)
         \<and> str_replace_all fresh
               (Some \<lparr>length_s = 5, capacity_s = 16, data_s = ''a-b-a'' @ NUL # ''??????????''\<rparr>)
               (Some ''a'') (Some ''xy'') = Some (Some r)
         \<and> content r = ''xy-b-xy'' \<and> int (length_s r) = 5 + 2 * (2 - 1)
         \<and> data_s r ! length_s r = NUL)"
proof -
  have inv: "str_inv \<lparr>length_s = 5, capacity_s = 16, data_s = ''a-b-a'' @ NUL # ''??????????''\<rparr>"
    by (simp add: str_inv_def)
  have c: "content \<lparr>length_s = 5, capacity_s = 16, data_s = ''a-b-a'' @ NUL # ''??????????''\<rparr>
           = ''a-b-a''"
    by (simp add: content_def)
  have nz: "NUL \<notin> set (content \<lparr>length_s = 5, capacity_s = 16,
                                   data_s = ''a-b-a'' @ NUL # ''??????????''\<rparr>)"
    by (simp add: content_def)
  have old: "0 < strlen ''a''" and cs: "c_str ''a'' = ''a''" "c_str ''xy'' = ''xy''"
    "strlen ''a'' = 1" "strlen ''xy'' = 2"
    by (simp_all add: strlen_def c_str_def)
  have R: "replace_every ''a'' ''xy'' ''a-b-a'' = ''xy-b-xy''"
    by (simp add: replace_every.simps)
  have occ: "occurrences ''a'' ''a-b-a'' = 2"
    by (simp add: occurrences.simps)
  have fits: "length (replace_every (c_str ''a'') (c_str ''xy'')
                (content \<lparr>length_s = 5, capacity_s = 16,
                          data_s = ''a-b-a'' @ NUL # ''??????????''\<rparr>)) < 2 ^ 63"
    unfolding c cs R by simp
  have al: "fresh \<noteq> None" by (simp add: fresh_def)
  from replace_and_replace_all_substitute_every_occurrence[OF inv nz old fits al] inv nz old
  show ?thesis
    unfolding c cs R occ by simp
qed

text \<open>
  Claim C5 says that for every buffer and all strings \<open>old\<close> and \<open>new\<close> both functions
  substitute every occurrence and that the length of the result is
  \<open>len(s) + occurrences * (len(new) - len(old))\<close>. Both loops read the content as a C string
  and stop at its first zero byte, while the length of the result is computed from the
  length of the buffer. The buffer that \<open>str_from\<close>, \<open>str_resize\<close> to 2 and
  \<open>str_append\<close> build holds the three bytes \<^verbatim>\<open>a\<close>, zero, \<^verbatim>\<open>a\<close>. Replacing
  \<^verbatim>\<open>"a"\<close> by \<^verbatim>\<open>"bb"\<close> in it returns, from either function, a buffer of length 4
  that holds \<^verbatim>\<open>bb\<close>, a zero byte and bytes that were never written, the byte at index
  \<open>length\<close> among them, where substituting both occurrences gives the five bytes
  \<^verbatim>\<open>bb\<close>, zero, \<^verbatim>\<open>bb\<close>.
\<close>

theorem str_replace_stops_at_interior_zero_byte:
  "str_from fresh (Some ''a'')
     = Some (Some \<lparr>length_s = 1, capacity_s = 16, data_s = ''a'' @ NUL # ''??????????????''\<rparr>)
   \<and> str_resize fresh
         (Some \<lparr>length_s = 1, capacity_s = 16, data_s = ''a'' @ NUL # ''??????????????''\<rparr>) 2
     = Some (True, Some \<lparr>length_s = 2, capacity_s = 16,
                           data_s = ''a'' @ NUL # NUL # ''?????????????''\<rparr>)
   \<and> str_append fresh
         (Some \<lparr>length_s = 2, capacity_s = 16, data_s = ''a'' @ NUL # NUL # ''?????????????''\<rparr>)
         (Some ''a'')
     = Some (True, Some \<lparr>length_s = 3, capacity_s = 16,
                           data_s = ''a'' @ NUL # ''a'' @ NUL # ''????????????''\<rparr>)
   \<and> content \<lparr>length_s = 3, capacity_s = 16, data_s = ''a'' @ NUL # ''a'' @ NUL # ''????????????''\<rparr>
     = ''a'' @ NUL # ''a''
   \<and> str_replace fresh
         (Some \<lparr>length_s = 3, capacity_s = 16,
                 data_s = ''a'' @ NUL # ''a'' @ NUL # ''????????????''\<rparr>)
         (Some ''a'') (Some ''bb'')
     = Some (Some \<lparr>length_s = 4, capacity_s = 16, data_s = ''bb'' @ NUL # ''?????????????''\<rparr>)
   \<and> str_replace_all fresh
         (Some \<lparr>length_s = 3, capacity_s = 16,
                 data_s = ''a'' @ NUL # ''a'' @ NUL # ''????????????''\<rparr>)
         (Some ''a'') (Some ''bb'')
     = Some (Some \<lparr>length_s = 4, capacity_s = 16, data_s = ''bb'' @ NUL # ''?????????????''\<rparr>)
   \<and> content \<lparr>length_s = 4, capacity_s = 16, data_s = ''bb'' @ NUL # ''?????????????''\<rparr>
     = ''bb'' @ NUL # ''?''
   \<and> data_s \<lparr>length_s = 4, capacity_s = 16, data_s = ''bb'' @ NUL # ''?????????????''\<rparr> ! 4
     = CHR ''?''
   \<and> replace_every ''a'' ''bb'' (''a'' @ NUL # ''a'') = ''bb'' @ NUL # ''bb''
   \<and> occurrences ''a'' (''a'' @ NUL # ''a'') = 2"
  by (simp add: from_defs str_resize_def str_append_def str_ensure_capacity_def memset_def
        content_def str_replace_def str_replace_loop1.simps str_replace_loop2.simps
        str_replace_all_def str_replace_all_loop1.simps str_replace_all_loop2.simps
        strstr_def replace_every.simps occurrences.simps Let_def)

section \<open>The capacity of a reversed copy\<close>

text \<open>
  Claim C1 says that every buffer an operation produces has a capacity that is a power
  of two, at least 16 and above the length, \<open>str_reverse\<close> included. \<open>str_reverse\<close>
  allocates \<open>length + 1\<close> bytes itself and records that as the capacity: for the buffer
  that \<open>str_from\<close> builds from \<^verbatim>\<open>"ab"\<close> the copy has capacity 3, which is below
  \<open>STR_MIN_CAPACITY\<close> and no power of two.
\<close>

theorem str_reverse_capacity_is_length_plus_one:
  "str_from fresh (Some ''ab'')
     = Some (Some \<lparr>length_s = 2, capacity_s = 16, data_s = ''ab'' @ NUL # ''?????????????''\<rparr>)
   \<and> str_reverse fresh
         (Some \<lparr>length_s = 2, capacity_s = 16, data_s = ''ab'' @ NUL # ''?????????????''\<rparr>)
     = Some \<lparr>length_s = 2, capacity_s = 3, data_s = ''ba'' @ [NUL]\<rparr>
   \<and> (3::nat) < STR_MIN_CAPACITY \<and> (\<forall>k. (3::nat) \<noteq> 2 ^ k)"
  by (simp add: from_defs str_reverse_def three_is_no_power_of_two str_reverse_loop.simps)

section \<open>Trimming\<close>

text \<open>
  Claim C6 says that after \<open>str_rtrim\<close> the last byte of a buffer that is not empty is
  no whitespace. The loop of \<open>str_rtrim\<close> stops at index 0 without looking at the byte
  there, so a buffer of whitespace only keeps its first byte: the buffer that
  \<open>str_from\<close> builds from \<^verbatim>\<open>" "\<close> comes back unchanged, with length 1 and a space
  as its last byte.
\<close>

theorem str_rtrim_keeps_first_byte_of_blank_buffer:
  "str_from fresh (Some '' '')
     = Some (Some \<lparr>length_s = 1, capacity_s = 16, data_s = '' '' @ NUL # ''??????????????''\<rparr>)
   \<and> str_rtrim (Some \<lparr>length_s = 1, capacity_s = 16, data_s = '' '' @ NUL # ''??????????????''\<rparr>)
     = Some \<lparr>length_s = 1, capacity_s = 16, data_s = '' '' @ NUL # ''??????????????''\<rparr>
   \<and> isspace (CHR '' '')"
  by (simp add: from_defs str_rtrim_def str_rtrim_loop.simps isspace_def)

section \<open>Termination\<close>

lemma strstr_empty_needle: "strstr hay [] = Some 0"
  by (cases "c_str hay") (simp_all add: strstr_def c_str_def)

text \<open>\<^verbatim>\<open>strstr\<close> finds the empty string at once and the pointer \<^verbatim>\<open>p\<close> does not
  advance: a loop that returns was not given the empty string.\<close>

lemma remove_all_loop_returns_only_for_nonempty:
  "str_remove_all_loop substr substr_len s p count = Some y \<Longrightarrow> substr \<noteq> []"
proof (rule str_remove_all_loop.raw_induct
    [where P = "\<lambda>substr substr_len s p count y. substr \<noteq> []"], goal_cases)
  case (1 loop substr substr_len s p count y)
  show ?case
  proof
    assume "substr = []"
    with 1(3) have "\<exists>s' p' count'. loop substr substr_len s' p' count' = Some y"
      by (auto simp: strstr_empty_needle)
    with 1(2) \<open>substr = []\<close> show False by blast
  qed
qed

lemma replace_loop1_returns_only_for_nonempty:
  "str_replace_loop1 mem old old_len p count = Some y \<Longrightarrow> old \<noteq> []"
proof (rule str_replace_loop1.raw_induct
    [where P = "\<lambda>mem old old_len p count y. old \<noteq> []"], goal_cases)
  case (1 loop mem old old_len p count y)
  show ?case
  proof
    assume "old = []"
    with 1(3) have "\<exists>p' count'. loop mem old old_len p' count' = Some y"
      by (auto simp: strstr_empty_needle)
    with 1(2) \<open>old = []\<close> show False by blast
  qed
qed

lemma replace_all_loop1_returns_only_for_nonempty:
  "str_replace_all_loop1 mem old old_len p count = Some y \<Longrightarrow> old \<noteq> []"
proof (rule str_replace_all_loop1.raw_induct
    [where P = "\<lambda>mem old old_len p count y. old \<noteq> []"], goal_cases)
  case (1 loop mem old old_len p count y)
  show ?case
  proof
    assume "old = []"
    with 1(3) have "\<exists>p' count'. loop mem old old_len p' count' = Some y"
      by (auto simp: strstr_empty_needle)
    with 1(2) \<open>old = []\<close> show False by blast
  qed
qed

text \<open>
  Claim C2 says that every operation terminates for every input it accepts, and names
  \<open>str_replace\<close>, \<open>str_replace_all\<close> and \<open>str_remove_all\<close> with the empty string. For
  every buffer \<open>s\<close> and the empty string as \<open>substr\<close> or \<open>old\<close>, none of the three calls
  returns.
\<close>

theorem empty_substring_never_returns:
  "str_remove_all (Some s) (Some []) = None
   \<and> str_replace a (Some s) (Some []) (Some new) = None
   \<and> str_replace_all a (Some s) (Some []) (Some new) = None"
proof -
  have "str_remove_all_loop [] (strlen []) s 0 0 = None"
    using remove_all_loop_returns_only_for_nonempty[of "[]"]
    by (cases "str_remove_all_loop [] (strlen []) s 0 0") auto
  moreover have "str_replace_loop1 (data_s s) [] (strlen []) 0 0 = None"
    using replace_loop1_returns_only_for_nonempty[of _ "[]"]
    by (cases "str_replace_loop1 (data_s s) [] (strlen []) 0 0") auto
  moreover have "str_replace_all_loop1 (data_s s) [] (strlen []) 0 0 = None"
    using replace_all_loop1_returns_only_for_nonempty[of _ "[]"]
    by (cases "str_replace_all_loop1 (data_s s) [] (strlen []) 0 0") auto
  ultimately show ?thesis
    by (simp add: str_remove_all_def str_replace_def str_replace_all_def)
qed

section \<open>Searching for the empty string\<close>

lemma to_int_0: "to_int 0 = 0"
  by (simp add: to_int_def)

text \<open>
  Claim C9. For every non-null buffer \<open>s\<close>, also an empty one, \<open>str_find\<close> with the empty
  substring returns 0 and never the not-found marker, while \<open>str_rfind\<close> with the empty
  substring returns the not-found marker \<open>-1\<close>: the two directions disagree.
\<close>

theorem find_and_rfind_of_empty_substring:
  "str_find (Some s) (Some []) = 0 \<and> str_find (Some s) (Some []) \<noteq> STR_NPOS
   \<and> str_rfind (Some s) (Some []) = STR_NPOS \<and> STR_NPOS = - 1"
proof -
  have "strstr (data_s s) [] = Some 0"
    by (cases "c_str (data_s s)") (simp_all add: strstr_def c_str_def)
  then have "str_find (Some s) (Some []) = 0"
    by (simp add: str_find_def to_int_0)
  moreover have "str_rfind (Some s) (Some []) = STR_NPOS"
    by (simp add: str_rfind_def)
  ultimately show ?thesis
    by (simp add: STR_NPOS_def)
qed

section \<open>Comparison reads C strings\<close>

lemma strcmp_common_prefix: "strcmp (p @ NUL # ra) (p @ NUL # rb) = 0"
  by (induction p) simp_all

text \<open>
  Claim C10. \<open>str_compare\<close> and \<open>str_equals\<close> look only at the bytes up to the first zero
  byte of each data block: two non-null buffers whose blocks agree up to and including a
  zero byte compare equal, whatever their recorded lengths, their capacities and the bytes
  \<open>ra\<close>, \<open>rb\<close> behind that zero byte are.
\<close>

theorem compare_reads_up_to_first_zero:
  assumes "data_s a = p @ NUL # ra" and "data_s b = p @ NUL # rb"
  shows "str_compare (Some a) (Some b) = 0 \<and> str_equals (Some a) (Some b)"
  using assms by (simp add: str_compare_def str_equals_def strcmp_common_prefix)

theorem compare_reads_up_to_first_zero_witness:
  "str_compare
     (Some \<lparr>length_s = 2, capacity_s = 16, data_s = ''ab'' @ NUL # ''cd''\<rparr>)
     (Some \<lparr>length_s = 5, capacity_s = 32, data_s = ''ab'' @ NUL # ''xyz''\<rparr>) = 0
   \<and> str_equals
     (Some \<lparr>length_s = 2, capacity_s = 16, data_s = ''ab'' @ NUL # ''cd''\<rparr>)
     (Some \<lparr>length_s = 5, capacity_s = 32, data_s = ''ab'' @ NUL # ''xyz''\<rparr>)"
  using compare_reads_up_to_first_zero
    [of "\<lparr>length_s = 2, capacity_s = 16, data_s = ''ab'' @ NUL # ''cd''\<rparr>" "''ab''" "''cd''"
        "\<lparr>length_s = 5, capacity_s = 32, data_s = ''ab'' @ NUL # ''xyz''\<rparr>" "''xyz''"]
  by simp

end
